theory Spec2Isabelle
  imports Complex_Main
begin

section \<open>The RISC-V Encode and RISC-V Decode operations\<close>

text \<open>
  The two operations of the repository that drive the instruction codec are embedded here:
  \<^item> \<^verbatim>\<open>RISCVEncode\<close> in its label-aware revision (functions \<^verbatim>\<open>run\<close>, \<^verbatim>\<open>parseRef\<close>,
    \<^verbatim>\<open>deref\<close>, \<^verbatim>\<open>invRef\<close>; it is the third document of the bundle \<^verbatim>\<open>src/Makefile\<close>,
    lines 137 to 360), which is the revision the specification describes (label table,
    two passes);
  \<^item> \<^verbatim>\<open>RISCVDecode.run\<close> (the second document of the same bundle, lines 25 to 136).

  The file \<^verbatim>\<open>src/src/core/operations/RISCVEncode.mjs\<close> holds the earlier revision of the
  encoder, without labels; it is embedded as well (\<open>run0\<close>, further down) so that the two
  can be compared.

  The instruction codec itself (class \<^verbatim>\<open>Instruction\<close> of \<^verbatim>\<open>lib/RISCV.mjs\<close>) is not
  embedded. The drivers only construct an \<^verbatim>\<open>Instruction\<close> inside a
  \<^verbatim>\<open>try\<close> block and read its fields \<^verbatim>\<open>hex\<close>, \<^verbatim>\<open>bin\<close> and \<^verbatim>\<open>asm\<close>, so the codec is a
  parameter of the embedding: a function that either throws (\<open>Inl\<close> of the error message)
  or returns the record of the fields read.

  JavaScript strings are modelled as HOL strings, that is lists of 8-bit characters: every
  character the drivers inspect (newline, colon, blank, comma, parentheses, digits, letters)
  is ASCII. Byte arrays are lists of natural numbers.
\<close>

subsection \<open>String primitives of JavaScript used by the drivers\<close>

definition NL :: char where
  "NL = CHR 0x0A"

text \<open>\<^verbatim>\<open>s.split(/[...]+/)\<close>: the pieces of \<open>s\<close> between the maximal runs of separator
  characters. A run at the very start or end leaves an empty first or last piece, and the
  empty string yields one empty piece.\<close>

function split_runs :: "(char \<Rightarrow> bool) \<Rightarrow> string \<Rightarrow> string list" where
  "split_runs sep s =
     (case dropWhile (\<lambda>c. \<not> sep c) s of
        [] \<Rightarrow> [s]
      | _ # rest \<Rightarrow> takeWhile (\<lambda>c. \<not> sep c) s # split_runs sep (dropWhile sep rest))"
  by pat_completeness auto
termination
proof (relation "measure (\<lambda>(sep, s). length s)")
  show "wf (measure (\<lambda>(sep, s). length s))" by simp
next
  fix sep :: "char \<Rightarrow> bool" and s :: string and x21 :: char and x22 :: string
  assume d: "dropWhile (\<lambda>c. \<not> sep c) s = x21 # x22"
  have "length (dropWhile sep x22) \<le> length x22" by (rule length_dropWhile_le)
  moreover have "length (x21 # x22) \<le> length s"
    using length_dropWhile_le [of "\<lambda>c. \<not> sep c" s] d by simp
  ultimately show "((sep, dropWhile sep x22), (sep, s)) \<in> measure (\<lambda>(sep, s). length s)"
    by simp
qed

declare split_runs.simps [simp del]

text \<open>\<^verbatim>\<open>s.split(":")\<close>: the pieces of \<open>s\<close> between the occurrences of one character.\<close>

function split_char :: "char \<Rightarrow> string \<Rightarrow> string list" where
  "split_char d s =
     (case dropWhile (\<lambda>c. c \<noteq> d) s of
        [] \<Rightarrow> [s]
      | _ # rest \<Rightarrow> takeWhile (\<lambda>c. c \<noteq> d) s # split_char d rest)"
  by pat_completeness auto
termination
proof (relation "measure (\<lambda>(d, s). length s)")
  show "wf (measure (\<lambda>(d, s). length s))" by simp
next
  fix d :: char and s :: string and x21 :: char and x22 :: string
  assume e: "dropWhile (\<lambda>c. c \<noteq> d) s = x21 # x22"
  have "length (x21 # x22) \<le> length s"
    using length_dropWhile_le [of "\<lambda>c. c \<noteq> d" s] e by simp
  then show "((d, x22), (d, s)) \<in> measure (\<lambda>(d, s). length s)"
    by simp
qed

declare split_char.simps [simp del]

text \<open>\<^verbatim>\<open>parts.join(sep)\<close>.\<close>

fun join :: "string \<Rightarrow> string list \<Rightarrow> string" where
  "join sep [] = []"
| "join sep [x] = x"
| "join sep (x # y # ys) = x @ sep @ join sep (y # ys)"

text \<open>\<^verbatim>\<open>s.trim()\<close> removes white space and line terminators at both ends; among the 8-bit
  characters these are TAB, LF, VT, FF, CR, SPACE and NBSP.\<close>

definition is_space :: "char \<Rightarrow> bool" where
  "is_space c \<longleftrightarrow> (of_char c :: nat) \<in> {9, 10, 11, 12, 13, 32, 160}"

definition trim :: "string \<Rightarrow> string" where
  "trim s = rev (dropWhile is_space (rev (dropWhile is_space s)))"

text \<open>\<^verbatim>\<open>s.includes(pat)\<close> and \<^verbatim>\<open>s.endsWith(pat)\<close>.\<close>

fun str_includes :: "string \<Rightarrow> string \<Rightarrow> bool" where
  "str_includes [] pat = (pat = [])"
| "str_includes (c # cs) pat = (take (length pat) (c # cs) = pat \<or> str_includes cs pat)"

definition endsWith :: "string \<Rightarrow> string \<Rightarrow> bool" where
  "endsWith s pat \<longleftrightarrow> length pat \<le> length s \<and> drop (length s - length pat) s = pat"

text \<open>\<^verbatim>\<open>s.toLowerCase()\<close>, on the ASCII letters. (No other 8-bit character is mapped to an
  ASCII letter, so membership in a list of ASCII mnemonics is not affected.)\<close>

definition lower_char :: "char \<Rightarrow> char" where
  "lower_char c =
     (if (65::nat) \<le> of_char c \<and> (of_char c :: nat) \<le> 90 then char_of ((of_char c :: nat) + 32) else c)"

definition toLowerCase :: "string \<Rightarrow> string" where
  "toLowerCase s = map lower_char s"

text \<open>The value of a digit character in a radix up to 16.\<close>

definition digit_val :: "char \<Rightarrow> nat option" where
  "digit_val c =
     (let n = (of_char c :: nat) in
      if 48 \<le> n \<and> n \<le> 57 then Some (n - 48)
      else if 97 \<le> n \<and> n \<le> 102 then Some (n - 87)
      else if 65 \<le> n \<and> n \<le> 70 then Some (n - 55)
      else None)"

definition is_digit :: "nat \<Rightarrow> char \<Rightarrow> bool" where
  "is_digit radix c = (case digit_val c of None \<Rightarrow> False | Some v \<Rightarrow> v < radix)"

text \<open>\<^verbatim>\<open>isNaN(parseInt(s, radix))\<close> for radix 10 and 16: \<^verbatim>\<open>parseInt\<close> skips leading white
  space, one sign, for radix 16 one prefix \<^verbatim>\<open>0x\<close> or \<^verbatim>\<open>0X\<close>, and then reads the longest
  run of digits; the result is \<^verbatim>\<open>NaN\<close> exactly when that run is empty.\<close>

definition parseInt_isNaN :: "nat \<Rightarrow> string \<Rightarrow> bool" where
  "parseInt_isNaN radix s =
     (let t = dropWhile is_space s;
          t = (case t of [] \<Rightarrow> t | c # r \<Rightarrow> if c = CHR ''+'' \<or> c = CHR ''-'' then r else t);
          t = (if radix = 16 \<and> (take 2 t = ''0x'' \<or> take 2 t = ''0X'') then drop 2 t else t)
      in case t of [] \<Rightarrow> True | c # _ \<Rightarrow> \<not> is_digit radix c)"

text \<open>\<^verbatim>\<open>/^\d/.test(s)\<close>.\<close>

definition starts_with_digit :: "string \<Rightarrow> bool" where
  "starts_with_digit s = (case s of [] \<Rightarrow> False | c # _ \<Rightarrow> is_digit 10 c)"

subsection \<open>Numbers as text\<close>

definition digit_char :: "nat \<Rightarrow> char" where
  "digit_char d = (if d < 10 then char_of (48 + d) else char_of (87 + d))"

text \<open>\<^verbatim>\<open>n.toString(16)\<close> and \<^verbatim>\<open>String(n)\<close> for a non-negative integer.\<close>

fun toString16 :: "nat \<Rightarrow> string" where
  "toString16 n = (if n < 16 then [digit_char n] else toString16 (n div 16) @ [digit_char (n mod 16)])"

fun toString10 :: "nat \<Rightarrow> string" where
  "toString10 n = (if n < 10 then [digit_char n] else toString10 (n div 10) @ [digit_char (n mod 10)])"

declare toString16.simps [simp del] toString10.simps [simp del]

text \<open>\<^verbatim>\<open>String(k)\<close> for an integer, as string concatenation renders a number.\<close>

definition int_toString :: "int \<Rightarrow> string" where
  "int_toString k = (if k < 0 then CHR ''-'' # toString10 (nat (- k)) else toString10 (nat k))"

text \<open>\<^verbatim>\<open>s.padStart(n, "0")\<close>; a target length that is not above the length of \<open>s\<close> (or
  negative, or \<^verbatim>\<open>-Infinity\<close>, which \<^verbatim>\<open>padStart\<close> clamps to 0) leaves \<open>s\<close> as it is.\<close>

definition padStart :: "nat \<Rightarrow> string \<Rightarrow> string" where
  "padStart n s = replicate (n - length s) (CHR ''0'') @ s"

text \<open>\<^verbatim>\<open>Math.ceil(Math.log(x) / Math.log(16))\<close> in exact arithmetic, for a non-negative
  integer \<open>x\<close>: the least \<open>w\<close> with \<open>x \<le> 16 ^ w\<close>. For \<open>x = 0\<close> the source obtains
  \<^verbatim>\<open>-Infinity\<close>, which is only ever passed to \<^verbatim>\<open>padStart\<close> and acts there as 0.\<close>

fun ceil_log16 :: "nat \<Rightarrow> nat" where
  "ceil_log16 x = (if x \<le> 1 then 0 else Suc (ceil_log16 ((x + 15) div 16)))"

declare ceil_log16.simps [simp del]

subsection \<open>Helpers of the hosting framework\<close>

text \<open>Modelled from the spec: \<^verbatim>\<open>fromHex\<close> of \<^verbatim>\<open>lib/Hex.mjs\<close> is not among the sources; the
  specification lists the conversion of a hex string to a byte array as an external utility.
  Two hex digits make one byte, a single trailing digit makes a byte of its own, and
  characters that are not hex digits separate nothing and are skipped.\<close>

fun hex_pairs :: "nat list \<Rightarrow> nat list" where
  "hex_pairs (a # b # rest) = (16 * a + b) # hex_pairs rest"
| "hex_pairs [a] = [a]"
| "hex_pairs [] = []"

definition fromHex :: "string \<Rightarrow> nat list" where
  "fromHex s = hex_pairs (List.map_filter digit_val s)"

text \<open>Modelled from the spec: \<^verbatim>\<open>toHexFast\<close> of \<^verbatim>\<open>lib/Hex.mjs\<close> is not among the sources
  either; it is the converse utility: two lower-case hex digits for each byte.\<close>

definition toHexFast :: "nat list \<Rightarrow> string" where
  "toHexFast bytes = concat (map (\<lambda>b. [digit_char (b div 16), digit_char (b mod 16)]) bytes)"

text \<open>Modelled from the spec: \<^verbatim>\<open>Utils.strToByteArray\<close> is not among the sources; the
  hosting framework collects the text as bytes, one per 8-bit character.\<close>

definition strToByteArray :: "string \<Rightarrow> nat list" where
  "strToByteArray s = map of_char s"

subsection \<open>Data of the encoder\<close>

datatype isa = AUTO | RV32I | RV64I | RV128I

datatype output_mode = RawBytes | HexString | BinaryString

text \<open>The arguments of \<^verbatim>\<open>RISCVEncode.run\<close>, in the order of \<^verbatim>\<open>this.args\<close>.\<close>

record enc_args =
  isa :: isa
  outputMode :: output_mode
  ignoreIllegal :: bool
  showAddr :: bool
  showInput :: bool

text \<open>The fields of an \<^verbatim>\<open>Instruction\<close> that the encoder reads.\<close>

record instruction =
  hex :: string
  bin :: string

text \<open>\<^verbatim>\<open>new Instruction(text, { ISA: isa })\<close>: \<open>Inl\<close> carries \<^verbatim>\<open>error.message\<close> of what
  the constructor throws.\<close>

type_synonym encoder = "isa \<Rightarrow> string \<Rightarrow> string + instruction"

text \<open>Every failure of the drivers is an \<^verbatim>\<open>OperationError\<close> with a message; the
  constructors keep apart the messages the source builds, with the line number or address
  and the text they interpolate. \<open>TypeError\<close> stands for reading a property of
  \<^verbatim>\<open>undefined\<close>.\<close>

datatype error =
    DuplicateLabel nat string
  | InvalidLabelName nat string
  | UndefinedLabel nat string
  | IllegalInstruction nat string
  | MisalignedInput
  | IllegalWord string string
  | TypeError

definition message :: "error \<Rightarrow> string" where
  "message e =
     (case e of
        DuplicateLabel n name \<Rightarrow>
          ''Error at line '' @ toString10 n @ '': Duplicate label name '' @ [CHR 0x22] @ name @ [CHR 0x22]
      | InvalidLabelName n name \<Rightarrow>
          ''Error at line '' @ toString10 n @ '': label name ('' @ name @ '') can't start with number''
      | UndefinedLabel n name \<Rightarrow>
          ''Error at line '' @ toString10 n @ '': Undefined label '' @ [CHR 0x22] @ name @ [CHR 0x22]
      | IllegalInstruction n msg \<Rightarrow> ''Error at line '' @ toString10 n @ '': '' @ msg
      | MisalignedInput \<Rightarrow> ''Instruction's length is not a multiple of 4.''
      | IllegalWord addr msg \<Rightarrow> ''Error at 0x'' @ addr @ '': '' @ msg
      | TypeError \<Rightarrow> ''TypeError'')"

subsection \<open>The label table\<close>

text \<open>\<^verbatim>\<open>refList\<close> is a plain object used as a dictionary from label names to addresses.
  Its own properties are kept as an association list in insertion order (the order in which
  \<^verbatim>\<open>for ... in\<close> enumerates them, label names being no array indices). A read
  \<^verbatim>\<open>refList[name]\<close> also finds the properties every object inherits from
  \<^verbatim>\<open>Object.prototype\<close>, which are neither \<^verbatim>\<open>undefined\<close> nor numbers.\<close>

type_synonym ref_list = "(string \<times> nat) list"

datatype js_value = Undefined | Number nat | Inherited

definition object_prototype_keys :: "string list" where
  "object_prototype_keys =
     [''constructor'', ''hasOwnProperty'', ''isPrototypeOf'', ''propertyIsEnumerable'',
      ''toLocaleString'', ''toString'', ''valueOf'', ''__proto__'',
      ''__defineGetter__'', ''__defineSetter__'', ''__lookupGetter__'', ''__lookupSetter__'']"

definition get_ref :: "ref_list \<Rightarrow> string \<Rightarrow> js_value" where
  "get_ref refList name =
     (case map_of refList name of
        Some a \<Rightarrow> Number a
      | None \<Rightarrow> if name \<in> set object_prototype_keys then Inherited else Undefined)"

subsection \<open>\<^verbatim>\<open>parseRef\<close>: the line-classification pass\<close>

text \<open>The first lines of \<^verbatim>\<open>parseRef\<close>: split at runs of newlines, then drop an empty
  first and an empty last piece. (\<^verbatim>\<open>codes[codes.length - 1]\<close> of an empty array is
  \<^verbatim>\<open>undefined\<close>, so nothing is popped then.)\<close>

definition split_codes :: "string \<Rightarrow> string list" where
  "split_codes commands =
     (let codes = split_runs (\<lambda>c. c = NL) commands;
          codes = (case codes of [] \<Rightarrow> codes | c # cs \<Rightarrow> if c = [] then cs else codes);
          codes = (if codes \<noteq> [] \<and> last codes = [] then butlast codes else codes)
      in codes)"

text \<open>The loop of \<^verbatim>\<open>parseRef\<close> over \<^verbatim>\<open>codes\<close>, from index \<open>i\<close> on. \<^verbatim>\<open>lineMap\<close> is only
  ever written at the key \<^verbatim>\<open>insts.length\<close>, just before \<^verbatim>\<open>insts.push\<close>: it is the list of
  line numbers that runs parallel to \<^verbatim>\<open>insts\<close>.\<close>

fun parseRef_loop ::
  "nat \<Rightarrow> string list \<Rightarrow> ref_list \<Rightarrow> string list \<Rightarrow> nat list
    \<Rightarrow> error + (string list \<times> ref_list \<times> nat list)" where
  "parseRef_loop i [] refList insts lineMap = Inr (insts, refList, lineMap)"
| "parseRef_loop i (code # codes) refList insts lineMap =
     (if \<not> str_includes code '':'' then
        parseRef_loop (i + 1) codes refList (insts @ [trim code]) (lineMap @ [i + 1])
      else
        (case split_char (CHR '':'') (trim code) of
           [] \<Rightarrow> Inl TypeError
         | refName # after \<Rightarrow>
             if get_ref refList refName \<noteq> Undefined then Inl (DuplicateLabel (i + 1) refName)
             else if starts_with_digit refName then Inl (InvalidLabelName (i + 1) refName)
             else
               let refList' = refList @ [(refName, length insts * 4)] in
               if \<not> endsWith (trim code) '':'' then
                 (case after of
                    [] \<Rightarrow> Inl TypeError
                  | inst # _ \<Rightarrow>
                      parseRef_loop (i + 1) codes refList' (insts @ [trim inst]) (lineMap @ [i + 1]))
               else parseRef_loop (i + 1) codes refList' insts lineMap))"

definition parseRef :: "string \<Rightarrow> error + (string list \<times> ref_list \<times> nat list)" where
  "parseRef commands = parseRef_loop 0 (split_codes commands) [] [] []"

subsection \<open>\<^verbatim>\<open>deref\<close>: the reference-resolution pass\<close>

definition mneList :: "string list" where
  "mneList = [''jal'', ''beq'', ''bne'', ''blt'', ''bge'', ''bltu'', ''bgeu'']"

definition is_delim :: "char \<Rightarrow> bool" where
  "is_delim c \<longleftrightarrow> c = CHR '' '' \<or> c = CHR '','' \<or> c = CHR ''('' \<or> c = CHR '')''"

text \<open>\<^verbatim>\<open>tokens\<close> is never empty, so \<^verbatim>\<open>tokens[0]\<close> and the last token exist. An inherited
  property in place of an address makes the subtraction \<^verbatim>\<open>NaN\<close>. (The two
  \<^verbatim>\<open>console.log\<close> calls have no effect on the result.)\<close>

definition deref :: "string \<Rightarrow> ref_list \<Rightarrow> nat \<Rightarrow> nat \<Rightarrow> error + string" where
  "deref inst refList lineNum instAddr =
     (let tokens = split_runs is_delim inst in
      if toLowerCase (hd tokens) \<notin> set mneList then Inr inst
      else
        let target = last tokens in
        if (str_includes target ''0x'' \<and> \<not> parseInt_isNaN 16 target) \<or> \<not> parseInt_isNaN 10 target
        then Inr inst
        else
          (case get_ref refList target of
             Undefined \<Rightarrow> Inl (UndefinedLabel lineNum target)
           | Number a \<Rightarrow>
               Inr (join '' '' (butlast tokens) @ '' '' @ int_toString (int a - int instAddr))
           | Inherited \<Rightarrow> Inr (join '' '' (butlast tokens) @ '' NaN'')))"

subsection \<open>\<^verbatim>\<open>invRef\<close>: the labels of each address\<close>

definition invRef :: "ref_list \<Rightarrow> (nat \<rightharpoonup> string list)" where
  "invRef refList =
     fold (\<lambda>(ref, dest) invRefList.
             case invRefList dest of
               None \<Rightarrow> invRefList(dest \<mapsto> [ref])
             | Some refs \<Rightarrow> invRefList(dest \<mapsto> refs @ [ref]))
          refList Map.empty"

subsection \<open>\<^verbatim>\<open>RISCVEncode.run\<close>\<close>

text \<open>What the \<^verbatim>\<open>catch\<close> branch substitutes when illegal instructions are ignored.\<close>

definition fill :: instruction where
  "fill = \<lparr>hex = ''ffffffff'', bin = ''11111111111111111111111111111111''\<rparr>"

text \<open>The \<^verbatim>\<open>try\<close> statement of the loop body.\<close>

definition new_Instruction :: "encoder \<Rightarrow> enc_args \<Rightarrow> nat \<Rightarrow> string \<Rightarrow> error + instruction" where
  "new_Instruction enc args lineNum instDeref =
     (case enc (isa args) instDeref of
        Inr inst \<Rightarrow> Inr inst
      | Inl msg \<Rightarrow> if ignoreIllegal args then Inr fill else Inl (IllegalInstruction lineNum msg))"

text \<open>The address column, \<^verbatim>\<open>(i * 4).toString(16).padStart(addrLength, "0")\<close>.\<close>

definition addr_text :: "nat \<Rightarrow> nat \<Rightarrow> string" where
  "addr_text addrLength i = padStart addrLength (toString16 (i * 4))"

definition label_suffix :: "(nat \<rightharpoonup> string list) \<Rightarrow> nat \<Rightarrow> string" where
  "label_suffix invRefList i =
     (case invRefList (i * 4) of
        None \<Rightarrow> []
      | Some refs \<Rightarrow> '' (label: '' @ join '', '' refs @ '')'')"

text \<open>The text pushed on \<^verbatim>\<open>ret\<close> for instruction \<open>i\<close> in the two textual modes.\<close>

definition out_line ::
  "enc_args \<Rightarrow> (nat \<rightharpoonup> string list) \<Rightarrow> nat \<Rightarrow> nat \<Rightarrow> string \<Rightarrow> instruction \<Rightarrow> string" where
  "out_line args invRefList addrLength i src inst =
     (let instStr = (if outputMode args = HexString then hex inst else bin inst) in
      if showAddr args \<and> showInput args then
        ''0x'' @ addr_text addrLength i @ '': '' @ instStr @ '' [ '' @ trim src @ '' ]''
          @ label_suffix invRefList i
      else if showAddr args then ''0x'' @ addr_text addrLength i @ '': '' @ instStr
      else if showInput args then instStr @ '' [ '' @ trim src @ '' ]'' @ label_suffix invRefList i
      else instStr)"

text \<open>The \<^verbatim>\<open>for\<close> loop of \<^verbatim>\<open>run\<close> from index \<open>i\<close> on, over the remaining pairs of
  \<^verbatim>\<open>insts[i]\<close> and \<^verbatim>\<open>lineMap[i]\<close>, with the arrays \<^verbatim>\<open>instBytes\<close> and \<^verbatim>\<open>ret\<close> built so
  far. (\<^verbatim>\<open>instBytecode\<close> is written and never read.)\<close>

fun run_loop ::
  "encoder \<Rightarrow> enc_args \<Rightarrow> ref_list \<Rightarrow> (nat \<rightharpoonup> string list) \<Rightarrow> nat \<Rightarrow> nat
    \<Rightarrow> (string \<times> nat) list \<Rightarrow> nat list \<Rightarrow> string list \<Rightarrow> error + (nat list \<times> string list)" where
  "run_loop enc args refList invRefList addrLength i [] instBytes ret = Inr (instBytes, ret)"
| "run_loop enc args refList invRefList addrLength i ((src, lineNum) # rest) instBytes ret =
     (case deref src refList lineNum (i * 4) of
        Inl e \<Rightarrow> Inl e
      | Inr instDeref \<Rightarrow>
          (case new_Instruction enc args lineNum instDeref of
             Inl e \<Rightarrow> Inl e
           | Inr inst \<Rightarrow>
               run_loop enc args refList invRefList addrLength (i + 1) rest
                 (instBytes @ fromHex (hex inst))
                 (if outputMode args \<noteq> RawBytes
                  then ret @ [out_line args invRefList addrLength i src inst] else ret)))"

definition run :: "encoder \<Rightarrow> string \<Rightarrow> enc_args \<Rightarrow> error + nat list" where
  "run enc commands args =
     (case parseRef commands of
        Inl e \<Rightarrow> Inl e
      | Inr (insts, refList, lineMap) \<Rightarrow>
          let invRefList = invRef refList;
              instNum = length insts;
              addrLength = ceil_log16 (instNum * 4)
          in (case run_loop enc args refList invRefList addrLength 0 (zip insts lineMap) [] [] of
                Inl e \<Rightarrow> Inl e
              | Inr (instBytes, ret) \<Rightarrow>
                  if outputMode args = RawBytes then Inr instBytes
                  else Inr (strToByteArray (join [NL] ret))))"

subsection \<open>\<^verbatim>\<open>RISCVDecode.run\<close>\<close>

text \<open>The arguments of \<^verbatim>\<open>RISCVDecode.run\<close>, in the order of \<^verbatim>\<open>this.args\<close>; the prefix
  \<open>d_\<close> keeps apart the three that the encoder has under the same name.\<close>

record dec_args =
  d_isa :: isa
  abi :: bool
  d_showAddr :: bool
  showBytecode :: bool
  showImmAsHex :: bool
  d_ignoreIllegal :: bool

text \<open>\<^verbatim>\<open>new Instruction(instHex, { ISA: isa, ABI: abi, immAsHex: showImmAsHex })\<close>,
  of which the decoder reads the field \<^verbatim>\<open>asm\<close>.\<close>

type_synonym decoder = "isa \<Rightarrow> bool \<Rightarrow> bool \<Rightarrow> string \<Rightarrow> string + string"

definition decode_line :: "dec_args \<Rightarrow> nat \<Rightarrow> nat \<Rightarrow> string \<Rightarrow> string \<Rightarrow> string" where
  "decode_line args addrLength i instHex asm =
     (if d_showAddr args \<and> showBytecode args then
        ''0x'' @ addr_text addrLength i @ '' ('' @ instHex @ ''): '' @ asm
      else if d_showAddr args then ''0x'' @ addr_text addrLength i @ '': '' @ asm
      else if showBytecode args then instHex @ '': '' @ asm
      else asm)"

text \<open>The \<^verbatim>\<open>for\<close> loop of the decoder over the remaining indices, with \<^verbatim>\<open>ret\<close> built so
  far.\<close>

fun decode_loop ::
  "decoder \<Rightarrow> dec_args \<Rightarrow> nat list \<Rightarrow> nat \<Rightarrow> nat list \<Rightarrow> string list \<Rightarrow> error + string list" where
  "decode_loop dec args insts addrLength [] ret = Inr ret"
| "decode_loop dec args insts addrLength (i # rest) ret =
     (let instBytes = take 4 (drop (i * 4) insts);
          instHex = toHexFast instBytes
      in case (case dec (d_isa args) (abi args) (showImmAsHex args) instHex of
                 Inr asm \<Rightarrow> Inr asm
               | Inl msg \<Rightarrow>
                   if d_ignoreIllegal args then Inr ''*** illegal instruction ***''
                   else Inl (IllegalWord (addr_text addrLength i) msg)) of
           Inl e \<Rightarrow> Inl e
         | Inr asm \<Rightarrow>
             decode_loop dec args insts addrLength rest
               (ret @ [decode_line args addrLength i instHex asm]))"

definition decode_run :: "decoder \<Rightarrow> nat list \<Rightarrow> dec_args \<Rightarrow> error + string" where
  "decode_run dec insts args =
     (if length insts mod 4 \<noteq> 0 then Inl MisalignedInput
      else
        let instNum = length insts div 4;
            addrLength = ceil_log16 (instNum * 4)
        in case decode_loop dec args insts addrLength [0..<instNum] [] of
             Inl e \<Rightarrow> Inl e
           | Inr ret \<Rightarrow> Inr (join [NL] ret))"

subsection \<open>The earlier revision of \<^verbatim>\<open>RISCVEncode.run\<close>\<close>

text \<open>The revision in \<^verbatim>\<open>src/src/core/operations/RISCVEncode.mjs\<close> knows no labels: every
  non-empty line is handed to the codec as it is, and the line number in an error is the
  loop index plus one. Its \<^verbatim>\<open>catch\<close> branch substitutes an object that has the field
  \<^verbatim>\<open>hex\<close> only, so \<^verbatim>\<open>inst.bin\<close> is \<^verbatim>\<open>undefined\<close> there (\<open>None\<close>); a template literal
  prints it as \<^verbatim>\<open>undefined\<close>, and \<^verbatim>\<open>join\<close> prints an undefined element as nothing.\<close>

definition template :: "string option \<Rightarrow> string" where
  "template v = (case v of None \<Rightarrow> ''undefined'' | Some s \<Rightarrow> s)"

definition join_elem :: "string option \<Rightarrow> string" where
  "join_elem v = (case v of None \<Rightarrow> [] | Some s \<Rightarrow> s)"

definition out_line0 :: "enc_args \<Rightarrow> nat \<Rightarrow> nat \<Rightarrow> string \<Rightarrow> string option \<Rightarrow> string option" where
  "out_line0 args addrLength i src instStr =
     (if showAddr args \<and> showInput args then
        Some (''0x'' @ addr_text addrLength i @ '': '' @ template instStr @ '' [ '' @ trim src @ '' ]'')
      else if showAddr args then Some (''0x'' @ addr_text addrLength i @ '': '' @ template instStr)
      else if showInput args then Some (template instStr @ '' [ '' @ trim src @ '' ]'')
      else instStr)"

fun run0_loop ::
  "encoder \<Rightarrow> enc_args \<Rightarrow> nat \<Rightarrow> nat \<Rightarrow> string list \<Rightarrow> nat list \<Rightarrow> string option list
    \<Rightarrow> error + (nat list \<times> string option list)" where
  "run0_loop enc args addrLength i [] instBytes ret = Inr (instBytes, ret)"
| "run0_loop enc args addrLength i (src # rest) instBytes ret =
     (case (case enc (isa args) src of
              Inr inst \<Rightarrow> Inr (hex inst, Some (bin inst))
            | Inl msg \<Rightarrow>
                if ignoreIllegal args then Inr (''ffffffff'', None)
                else Inl (IllegalInstruction (i + 1) msg)) of
        Inl e \<Rightarrow> Inl e
      | Inr (inst_hex, inst_bin) \<Rightarrow>
          run0_loop enc args addrLength (i + 1) rest
            (instBytes @ fromHex inst_hex)
            (if outputMode args \<noteq> RawBytes
             then ret @ [out_line0 args addrLength i src
                           (if outputMode args = HexString then Some inst_hex else inst_bin)]
             else ret))"

definition run0 :: "encoder \<Rightarrow> string \<Rightarrow> enc_args \<Rightarrow> error + nat list" where
  "run0 enc commands args =
     (let insts = split_codes commands;
          instNum = length insts;
          addrLength = ceil_log16 (instNum * 4)
      in case run0_loop enc args addrLength 0 insts [] [] of
           Inl e \<Rightarrow> Inl e
         | Inr (instBytes, ret) \<Rightarrow>
             if outputMode args = RawBytes then Inr instBytes
             else Inr (strToByteArray (join [NL] (map join_elem ret))))"

section \<open>What the encoder computes\<close>

subsection \<open>Reference functions\<close>

text \<open>The instructions of a program in line order: each source line is resolved at its
  address and constructed; the first failure ends the assembly.\<close>

fun encode_all ::
  "encoder \<Rightarrow> enc_args \<Rightarrow> ref_list \<Rightarrow> nat \<Rightarrow> (string \<times> nat) list \<Rightarrow> error + instruction list" where
  "encode_all enc args refList i [] = Inr []"
| "encode_all enc args refList i ((src, lineNum) # rest) =
     (case deref src refList lineNum (i * 4) of
        Inl e \<Rightarrow> Inl e
      | Inr instDeref \<Rightarrow>
          (case new_Instruction enc args lineNum instDeref of
             Inl e \<Rightarrow> Inl e
           | Inr inst \<Rightarrow>
               (case encode_all enc args refList (i + 1) rest of
                  Inl e \<Rightarrow> Inl e
                | Inr insts \<Rightarrow> Inr (inst # insts))))"

text \<open>The text lines of the instructions numbered from \<open>i\<close> on.\<close>

fun text_lines ::
  "enc_args \<Rightarrow> (nat \<rightharpoonup> string list) \<Rightarrow> nat \<Rightarrow> nat \<Rightarrow> string list \<Rightarrow> instruction list \<Rightarrow> string list" where
  "text_lines args invRefList addrLength i (src # srcs) (inst # insts) =
     out_line args invRefList addrLength i src inst
       # text_lines args invRefList addrLength (i + 1) srcs insts"
| "text_lines args invRefList addrLength i srcs insts = []"

text \<open>The non-empty lines of a text, and the value of a hex numeral.\<close>

definition nonempty_lines :: "string \<Rightarrow> string list" where
  "nonempty_lines s = filter (\<lambda>l. l \<noteq> []) (split_char NL s)"

definition hex_value :: "string \<Rightarrow> nat" where
  "hex_value s = foldl (\<lambda>acc c. 16 * acc + (case digit_val c of None \<Rightarrow> 0 | Some v \<Rightarrow> v)) 0 s"

text \<open>A codec whose \<^verbatim>\<open>hex\<close> has eight hex digits and whose \<^verbatim>\<open>bin\<close> has thirty-two binary
  digits, as the specification has it for a 32-bit word.\<close>

definition is_hex_string :: "string \<Rightarrow> bool" where
  "is_hex_string s = list_all (\<lambda>c. digit_val c \<noteq> None) s"

definition is_bin_string :: "string \<Rightarrow> bool" where
  "is_bin_string s = list_all (\<lambda>c. c = CHR ''0'' \<or> c = CHR ''1'') s"

definition wf_instruction :: "instruction \<Rightarrow> bool" where
  "wf_instruction inst \<longleftrightarrow>
     length (hex inst) = 8 \<and> is_hex_string (hex inst) \<and> length (bin inst) = 32 \<and> is_bin_string (bin inst)"

definition wf_encoder :: "encoder \<Rightarrow> bool" where
  "wf_encoder enc \<longleftrightarrow> (\<forall>w s inst. enc w s = Inr inst \<longrightarrow> wf_instruction inst)"

text \<open>An encoder for examples: it knows two instruction texts and rejects the rest.\<close>

definition enc_demo :: encoder where
  "enc_demo w s =
     (if s = ''addi x1, x1, 1''
      then Inr \<lparr>hex = ''00108093'', bin = ''00000000000100001000000010010011''\<rparr>
      else if s = ''beq x1 x2 -4''
      then Inr \<lparr>hex = ''fe208ee3'', bin = ''11111110001000001000111011100011''\<rparr>
      else Inl ''invalid instruction'')"

text \<open>How \<^verbatim>\<open>parseRef\<close> reads one line: the label a line with a colon defines, whether
  such a line carries no instruction, and the instruction text of a line that has one.\<close>

definition label_of :: "string \<Rightarrow> string" where
  "label_of code = hd (split_char (CHR '':'') (trim code))"

definition is_label_only :: "string \<Rightarrow> bool" where
  "is_label_only code \<longleftrightarrow> str_includes code '':'' \<and> endsWith (trim code) '':''"

definition inst_text :: "string \<Rightarrow> string" where
  "inst_text code =
     (if \<not> str_includes code '':'' then trim code
      else trim (hd (tl (split_char (CHR '':'') (trim code)))))"

text \<open>The instruction lines among the lines numbered from \<open>i + 1\<close> on, each with its
  number.\<close>

fun inst_lines :: "nat \<Rightarrow> string list \<Rightarrow> (string \<times> nat) list" where
  "inst_lines i [] = []"
| "inst_lines i (code # codes) =
     (if is_label_only code then [] else [(inst_text code, i + 1)]) @ inst_lines (i + 1) codes"

text \<open>The slots of the earlier revision: the \<^verbatim>\<open>hex\<close> and \<^verbatim>\<open>bin\<close> of what the \<^verbatim>\<open>try\<close> statement
  leaves in \<^verbatim>\<open>inst\<close> for each line in order (the first failure ends the assembly), and the
  elements of \<^verbatim>\<open>ret\<close> for the instructions numbered from \<open>i\<close> on.\<close>

fun encode_all0 ::
  "encoder \<Rightarrow> enc_args \<Rightarrow> nat \<Rightarrow> string list \<Rightarrow> error + (string \<times> string option) list" where
  "encode_all0 enc args i [] = Inr []"
| "encode_all0 enc args i (src # rest) =
     (case (case enc (isa args) src of
              Inr inst \<Rightarrow> Inr (hex inst, Some (bin inst))
            | Inl msg \<Rightarrow>
                if ignoreIllegal args then Inr (''ffffffff'', None)
                else Inl (IllegalInstruction (i + 1) msg)) of
        Inl e \<Rightarrow> Inl e
      | Inr slot \<Rightarrow>
          (case encode_all0 enc args (i + 1) rest of
             Inl e \<Rightarrow> Inl e
           | Inr slots \<Rightarrow> Inr (slot # slots)))"

fun text_lines0 ::
  "enc_args \<Rightarrow> nat \<Rightarrow> nat \<Rightarrow> string list \<Rightarrow> (string \<times> string option) list \<Rightarrow> string option list" where
  "text_lines0 args addrLength i (src # srcs) (slot # slots) =
     out_line0 args addrLength i src (if outputMode args = HexString then Some (fst slot) else snd slot)
       # text_lines0 args addrLength (i + 1) srcs slots"
| "text_lines0 args addrLength i srcs slots = []"

text \<open>Which lines stop the line-classification pass: a line that defines a label already
  defined (in \<open>D\<close> or on an earlier line) or named like a property every object inherits,
  and a line that defines a label starting with a digit.\<close>

definition repeats :: "string list \<Rightarrow> string list \<Rightarrow> nat \<Rightarrow> bool" where
  "repeats D codes k \<longleftrightarrow>
     str_includes (codes ! k) '':'' \<and>
     (label_of (codes ! k) \<in> set D \<or> label_of (codes ! k) \<in> set object_prototype_keys \<or>
      list_ex (\<lambda>j. str_includes (codes ! j) '':'' \<and> label_of (codes ! j) = label_of (codes ! k))
        [0..<k])"

definition offends :: "string list \<Rightarrow> string list \<Rightarrow> nat \<Rightarrow> bool" where
  "offends D codes k \<longleftrightarrow>
     repeats D codes k \<or>
     str_includes (codes ! k) '':'' \<and> starts_with_digit (label_of (codes ! k))"

subsection \<open>Example inputs\<close>

definition prog_loop :: string where
  "prog_loop = ''loop:'' @ [NL] @ ''addi x1, x1, 1'' @ [NL] @ ''beq x1, x2, loop'' @ [NL]"

definition raw_args :: enc_args where
  "raw_args =
     \<lparr>isa = AUTO, outputMode = RawBytes, ignoreIllegal = False, showAddr = False, showInput = False\<rparr>"

definition dec_plain :: dec_args where
  "dec_plain =
     \<lparr>d_isa = AUTO, abi = False, d_showAddr = False, showBytecode = False, showImmAsHex = False,
      d_ignoreIllegal = False\<rparr>"

definition text_args :: enc_args where
  "text_args =
     \<lparr>isa = AUTO, outputMode = HexString, ignoreIllegal = False, showAddr = True, showInput = True\<rparr>"

definition lenient_args :: enc_args where
  "lenient_args =
     \<lparr>isa = AUTO, outputMode = BinaryString, ignoreIllegal = True, showAddr = False, showInput = False\<rparr>"

definition srcs_five :: "string list" where
  "srcs_five = replicate 5 ''addi x1, x1, 1''"

definition prog_five :: string where
  "prog_five = join [NL] srcs_five"

definition addr_args :: enc_args where
  "addr_args =
     \<lparr>isa = AUTO, outputMode = HexString, ignoreIllegal = False, showAddr = True, showInput = False\<rparr>"

definition out_five :: "nat list" where
  "out_five = strToByteArray (join [NL]
     [''0x00: 00108093'', ''0x04: 00108093'', ''0x08: 00108093'', ''0x0c: 00108093'',
      ''0x10: 00108093''])"

definition srcs_bad :: "string list" where
  "srcs_bad = [''addi x1, x1, 1'', ''bogus x1'', ''addi x1, x1, 1'']"

definition prog_bad :: string where
  "prog_bad = join [NL] srcs_bad"

definition out_bad :: "nat list" where
  "out_bad = strToByteArray (join [NL]
     [''00000000000100001000000010010011'', ''11111111111111111111111111111111'',
      ''00000000000100001000000010010011''])"

definition prog_twice :: string where
  "prog_twice = ''L:'' @ [NL] @ ''L:''"

definition prog_digit :: string where
  "prog_digit = ''7:'' @ [NL] @ ''L:'' @ [NL] @ ''L:''"

definition prog_shadow :: string where
  "prog_shadow = ''A:'' @ [NL] @ ''A:'' @ [NL] @ ''7:'' @ [NL] @ ''B:'' @ [NL] @ ''B:''"

definition prog_inherited :: string where
  "prog_inherited = ''constructor:'' @ [NL] @ ''7:'' @ [NL] @ ''L:'' @ [NL] @ ''L:''"

definition prog_blank :: string where
  "prog_blank = ''addi x1, x1, 1'' @ [NL, NL] @ ''bogus x1''"

definition prog_label :: string where
  "prog_label = ''start:'' @ [NL] @ ''addi x1, x1, 1''"

definition prog_gaps :: string where
  "prog_gaps = [NL, NL] @ ''addi x1, x1, 1'' @ [NL, NL, NL] @ ''addi x1, x1, 1'' @ [NL]"

definition prog_tidy :: string where
  "prog_tidy = ''addi x1, x1, 1'' @ [NL] @ ''addi x1, x1, 1''"

definition prog_tail :: string where
  "prog_tail = ''addi x1, x1, 1'' @ [NL] @ ''bogus x1''"

definition prog_bogus :: string where
  "prog_bogus = ''bogus x1''"
section \<open>Properties\<close>

subsection \<open>Splitting\<close>

lemma split_char_Nil: "split_char d [] = [[]]"
  by (simp add: split_char.simps)

lemma split_char_sep: "split_char d (d # cs) = [] # split_char d cs"
  by (subst split_char.simps) simp

lemma split_char_other:
  assumes "c \<noteq> d"
  shows "split_char d (c # cs) = (c # hd (split_char d cs)) # tl (split_char d cs)"
proof (cases "dropWhile (\<lambda>c. c \<noteq> d) cs")
  case Nil
  have "split_char d (c # cs) = [c # cs]"
    by (subst split_char.simps) (simp add: assms Nil)
  moreover have "split_char d cs = [cs]"
    by (subst split_char.simps) (simp add: Nil)
  ultimately show ?thesis by simp
next
  case (Cons x rest)
  have "split_char d (c # cs) = (c # takeWhile (\<lambda>c. c \<noteq> d) cs) # split_char d rest"
    by (subst split_char.simps) (simp add: assms Cons)
  moreover have "split_char d cs = takeWhile (\<lambda>c. c \<noteq> d) cs # split_char d rest"
    by (subst split_char.simps) (simp add: Cons)
  ultimately show ?thesis by simp
qed

lemma split_char_not_Nil: "split_char d s \<noteq> []"
  by (subst split_char.simps) (simp split: list.splits)

lemma split_runs_not_Nil: "split_runs sep s \<noteq> []"
  by (subst split_runs.simps) (simp split: list.splits)

lemma split_runs_Nil: "split_runs sep [] = [[]]"
  by (simp add: split_runs.simps)

lemma split_runs_sep:
  assumes "sep c"
  shows "split_runs sep (c # cs) = [] # split_runs sep (dropWhile sep cs)"
  by (subst split_runs.simps) (simp add: assms)

lemma split_runs_other:
  assumes "\<not> sep c"
  shows "split_runs sep (c # cs) = (c # hd (split_runs sep cs)) # tl (split_runs sep cs)"
proof (cases "dropWhile (\<lambda>c. \<not> sep c) cs")
  case Nil
  have "split_runs sep (c # cs) = [c # cs]"
    by (subst split_runs.simps) (simp add: assms Nil)
  moreover have "split_runs sep cs = [cs]"
    by (subst split_runs.simps) (simp add: Nil)
  ultimately show ?thesis by simp
next
  case (Cons x rest)
  have "split_runs sep (c # cs)
          = (c # takeWhile (\<lambda>c. \<not> sep c) cs) # split_runs sep (dropWhile sep rest)"
    by (subst split_runs.simps) (simp add: assms Cons)
  moreover have "split_runs sep cs
          = takeWhile (\<lambda>c. \<not> sep c) cs # split_runs sep (dropWhile sep rest)"
    by (subst split_runs.simps) (simp add: Cons)
  ultimately show ?thesis by simp
qed

lemma split_char_pieces: "p \<in> set (split_char d s) \<Longrightarrow> d \<notin> set p \<and> set p \<subseteq> set s"
proof (induction s arbitrary: p)
  case Nil
  then show ?case by (simp add: split_char_Nil)
next
  case (Cons c cs)
  show ?case
  proof (cases "c = d")
    case True
    with Cons show ?thesis by (auto simp: split_char_sep)
  next
    case False
    obtain q qs where q: "split_char d cs = q # qs"
      using split_char_not_Nil [of d cs] by (cases "split_char d cs") auto
    from Cons.prems have "p = c # q \<or> p \<in> set qs"
      by (simp add: split_char_other [OF False] q)
    then show ?thesis
    proof
      assume "p = c # q"
      moreover from Cons.IH [of q] q have "d \<notin> set q \<and> set q \<subseteq> set cs" by simp
      ultimately show ?thesis using False by auto
    next
      assume "p \<in> set qs"
      with Cons.IH [of p] q show ?thesis by auto
    qed
  qed
qed

lemma hd_split_runs: "hd (split_runs sep s) = takeWhile (\<lambda>c. \<not> sep c) s"
proof (cases "dropWhile (\<lambda>c. \<not> sep c) s")
  case Nil
  then have tw: "takeWhile (\<lambda>c. \<not> sep c) s = s"
    by (metis append_Nil2 takeWhile_dropWhile_id)
  have sp: "split_runs sep s = [s]"
    by (subst split_runs.simps) (simp only: Nil list.case)
  show ?thesis by (simp add: sp tw)
next
  case (Cons x rest)
  then show ?thesis by (subst split_runs.simps) simp
qed

lemma hd_split_char: "hd (split_char d s) = takeWhile (\<lambda>c. c \<noteq> d) s"
proof (cases "dropWhile (\<lambda>c. c \<noteq> d) s")
  case Nil
  then have tw: "takeWhile (\<lambda>c. c \<noteq> d) s = s"
    by (metis append_Nil2 takeWhile_dropWhile_id)
  have sp: "split_char d s = [s]"
    by (subst split_char.simps) (simp only: Nil list.case)
  show ?thesis by (simp add: sp tw)
next
  case (Cons x rest)
  then show ?thesis by (subst split_char.simps) simp
qed

lemma split_char_dropWhile:
  "filter (\<lambda>l. l \<noteq> []) (split_char d (dropWhile (\<lambda>c. c = d) cs))
     = filter (\<lambda>l. l \<noteq> []) (split_char d cs)"
  by (induction cs) (simp_all add: split_char_sep)

lemma tl_split_runs_char:
  "filter (\<lambda>l. l \<noteq> []) (tl (split_runs (\<lambda>c. c = d) s))
     = filter (\<lambda>l. l \<noteq> []) (tl (split_char d s))"
proof (induction s rule: length_induct)
  case (1 s)
  show ?case
  proof (cases s)
    case Nil
    then show ?thesis by (simp add: split_runs_Nil split_char_Nil)
  next
    case (Cons c cs)
    show ?thesis
    proof (cases "c = d")
      case True
      let ?t = "dropWhile (\<lambda>c. c = d) cs"
      have len: "length ?t < length s"
        using length_dropWhile_le [of "\<lambda>c. c = d" cs] by (simp add: Cons)
      have ne1: "split_runs (\<lambda>c. c = d) ?t \<noteq> []" by (rule split_runs_not_Nil)
      have ne2: "split_char d ?t \<noteq> []" by (rule split_char_not_Nil)
      have "filter (\<lambda>l. l \<noteq> []) (split_runs (\<lambda>c. c = d) ?t)
              = filter (\<lambda>l. l \<noteq> []) (hd (split_runs (\<lambda>c. c = d) ?t) # tl (split_runs (\<lambda>c. c = d) ?t))"
        using ne1 by simp
      also have "\<dots> = filter (\<lambda>l. l \<noteq> []) (hd (split_char d ?t) # tl (split_char d ?t))"
        using "1.IH" len by (simp add: hd_split_runs hd_split_char)
      also have "\<dots> = filter (\<lambda>l. l \<noteq> []) (split_char d ?t)"
        using ne2 by simp
      finally have "filter (\<lambda>l. l \<noteq> []) (split_runs (\<lambda>c. c = d) ?t)
              = filter (\<lambda>l. l \<noteq> []) (split_char d cs)"
        by (simp add: split_char_dropWhile)
      then show ?thesis
        using True by (simp add: Cons split_runs_sep split_char_sep)
    next
      case False
      have "length cs < length s" by (simp add: Cons)
      with "1.IH" have "filter (\<lambda>l. l \<noteq> []) (tl (split_runs (\<lambda>c. c = d) cs))
              = filter (\<lambda>l. l \<noteq> []) (tl (split_char d cs))"
        by blast
      then show ?thesis
        using False by (simp add: Cons split_runs_other split_char_other)
    qed
  qed
qed

lemma split_runs_inner_nonempty:
  "\<forall>p \<in> set (butlast (tl (split_runs sep s))). p \<noteq> []"
proof (induction s rule: length_induct)
  case (1 s)
  show ?case
  proof (cases s)
    case Nil
    then show ?thesis by (simp add: split_runs_Nil)
  next
    case (Cons c cs)
    show ?thesis
    proof (cases "sep c")
      case True
      let ?t = "dropWhile sep cs"
      show ?thesis
      proof (cases ?t)
        case Nil
        have "split_runs sep (c # cs) = [] # split_runs sep (dropWhile sep cs)"
          using True by (simp add: split_runs_sep)
        then have "split_runs sep (c # cs) = [[], []]"
          by (simp only: Nil split_runs_Nil)
        then show ?thesis by (simp add: Cons)
      next
        case t: (Cons c' t')
        have nsep: "\<not> sep c'" using t by (metis hd_dropWhile list.sel(1) list.simps(3))
        have "length t' < length s"
          using length_dropWhile_le [of sep cs] by (simp add: Cons t)
        with "1.IH" have ih: "\<forall>p \<in> set (butlast (tl (split_runs sep t'))). p \<noteq> []"
          by blast
        have "split_runs sep (c # cs) = [] # (c' # hd (split_runs sep t')) # tl (split_runs sep t')"
          using True nsep by (simp add: split_runs_sep t split_runs_other)
        with ih show ?thesis by (simp add: Cons)
      qed
    next
      case False
      have "length cs < length s" by (simp add: Cons)
      with "1.IH" have "\<forall>p \<in> set (butlast (tl (split_runs sep cs))). p \<noteq> []"
        by blast
      then show ?thesis using False by (simp add: Cons split_runs_other)
    qed
  qed
qed

lemma filter_nonempty_butlast:
  assumes "\<forall>x \<in> set (butlast rest). x \<noteq> []"
  shows "filter (\<lambda>l. l \<noteq> []) rest = (if rest \<noteq> [] \<and> last rest = [] then butlast rest else rest)"
proof (cases "rest = []")
  case True
  then show ?thesis by simp
next
  case False
  then have "rest = butlast rest @ [last rest]" by simp
  then have "filter (\<lambda>l. l \<noteq> []) rest
               = filter (\<lambda>l. l \<noteq> []) (butlast rest) @ filter (\<lambda>l. l \<noteq> []) [last rest]"
    by (metis filter_append)
  moreover have "filter (\<lambda>l. l \<noteq> []) (butlast rest) = butlast rest"
    using assms by (simp add: filter_id_conv)
  ultimately show ?thesis using False by auto
qed

lemma split_codes_nonempty_lines: "split_codes s = nonempty_lines s"
proof -
  let ?r = "split_runs (\<lambda>c. c = NL) s"
  obtain p rest where r: "?r = p # rest"
    using split_runs_not_Nil [of "\<lambda>c. c = NL" s] by (cases ?r) auto
  have inner: "\<forall>x \<in> set (butlast rest). x \<noteq> []"
    using split_runs_inner_nonempty [of "\<lambda>c. c = NL" s] by (simp add: r)
  have f: "filter (\<lambda>l. l \<noteq> []) rest = (if rest \<noteq> [] \<and> last rest = [] then butlast rest else rest)"
    by (rule filter_nonempty_butlast [OF inner])
  have "split_codes s = filter (\<lambda>l. l \<noteq> []) ?r"
    by (simp add: split_codes_def r f Let_def)
  also have "\<dots> = filter (\<lambda>l. l \<noteq> []) (hd ?r # tl ?r)"
    by (simp add: r)
  also have "\<dots> = filter (\<lambda>l. l \<noteq> []) (hd (split_char NL s) # tl (split_char NL s))"
    by (simp add: hd_split_runs hd_split_char tl_split_runs_char)
  also have "\<dots> = nonempty_lines s"
    using split_char_not_Nil [of NL s] by (simp add: nonempty_lines_def)
  finally show ?thesis .
qed

subsection \<open>The loop of the encoder\<close>

lemma run_loop_eq:
  "run_loop enc args refList invRefList addrLength i items instBytes ret =
     (case encode_all enc args refList i items of
        Inl e \<Rightarrow> Inl e
      | Inr insts \<Rightarrow>
          Inr (instBytes @ concat (map (\<lambda>inst. fromHex (hex inst)) insts),
               if outputMode args \<noteq> RawBytes
               then ret @ text_lines args invRefList addrLength i (map fst items) insts
               else ret))"
proof (induction items arbitrary: i instBytes ret)
  case Nil
  show ?case by simp
next
  case (Cons item items)
  obtain src lineNum where item: "item = (src, lineNum)" by (cases item)
  show ?case
    by (simp add: item Cons.IH split: sum.splits)
qed

lemma encode_all_length:
  "encode_all enc args refList i items = Inr insts \<Longrightarrow> length insts = length items"
proof (induction items arbitrary: i insts)
  case Nil
  then show ?case by simp
next
  case (Cons item items)
  obtain src lineNum where item: "item = (src, lineNum)" by (cases item)
  from Cons.prems show ?case
    by (auto simp: item split: sum.splits dest: Cons.IH)
qed

lemma encode_all_nth:
  "encode_all enc args refList i items = Inr insts \<Longrightarrow> k < length items \<Longrightarrow>
     \<exists>d. deref (fst (items ! k)) refList (snd (items ! k)) ((i + k) * 4) = Inr d
        \<and> new_Instruction enc args (snd (items ! k)) d = Inr (insts ! k)"
proof (induction items arbitrary: i insts k)
  case Nil
  then show ?case by simp
next
  case (Cons item items)
  obtain src lineNum where item: "item = (src, lineNum)" by (cases item)
  from Cons.prems(1) obtain d inst rest where
    d: "deref src refList lineNum (i * 4) = Inr d" and
    c: "new_Instruction enc args lineNum d = Inr inst" and
    r: "encode_all enc args refList (i + 1) items = Inr rest" and
    insts: "insts = inst # rest"
    by (auto simp: item split: sum.splits)
  show ?case
  proof (cases k)
    case 0
    then show ?thesis using d c by (simp add: item insts)
  next
    case (Suc j)
    with Cons.prems(2) have "j < length items" by simp
    from Cons.IH [OF r this] show ?thesis by (simp add: Suc insts)
  qed
qed

lemma text_lines_length:
  "length srcs = length insts \<Longrightarrow> length (text_lines args ivl aL i srcs insts) = length srcs"
  by (induction args ivl aL i srcs insts rule: text_lines.induct) auto

lemma text_lines_nth:
  "length srcs = length insts \<Longrightarrow> k < length srcs \<Longrightarrow>
     text_lines args ivl aL i srcs insts ! k = out_line args ivl aL (i + k) (srcs ! k) (insts ! k)"
proof (induction args ivl aL i srcs insts arbitrary: k rule: text_lines.induct)
  case (1 args ivl aL i src srcs inst insts)
  then show ?case by (cases k) auto
qed auto

lemma new_Instruction_flags:
  "new_Instruction enc (args\<lparr>showAddr := a, showInput := b\<rparr>) = new_Instruction enc args"
  by (rule ext)+ (simp add: new_Instruction_def split: sum.splits)

lemma encode_all_flags:
  "encode_all enc (args\<lparr>showAddr := a, showInput := b\<rparr>) refList i items
     = encode_all enc args refList i items"
proof (induction items arbitrary: i)
  case Nil
  show ?case by simp
next
  case (Cons item items)
  obtain src lineNum where item: "item = (src, lineNum)" by (cases item)
  show ?case by (simp add: item Cons.IH new_Instruction_flags cong: sum.case_cong)
qed

lemma run_eq:
  "run enc commands args =
     (case parseRef commands of
        Inl e \<Rightarrow> Inl e
      | Inr (insts, refList, lineMap) \<Rightarrow>
          (case encode_all enc args refList 0 (zip insts lineMap) of
             Inl e \<Rightarrow> Inl e
           | Inr is \<Rightarrow>
               if outputMode args = RawBytes
               then Inr (concat (map (\<lambda>inst. fromHex (hex inst)) is))
               else Inr (strToByteArray (join [NL]
                      (text_lines args (invRef refList) (ceil_log16 (length insts * 4)) 0
                         (map fst (zip insts lineMap)) is)))))"
  by (simp add: run_def run_loop_eq Let_def split: sum.splits prod.splits)

lemma length_hex_pairs: "length xs = 8 \<Longrightarrow> length (hex_pairs xs) = 4"
  by (auto simp: numeral_eq_Suc length_Suc_conv)

lemma map_filter_all: "list_all (\<lambda>c. f c \<noteq> None) s \<Longrightarrow> length (List.map_filter f s) = length s"
  by (induction s) (auto simp: List.map_filter_simps split: option.splits)

lemma fromHex_length: "length s = 8 \<Longrightarrow> is_hex_string s \<Longrightarrow> length (fromHex s) = 4"
  by (simp add: fromHex_def is_hex_string_def length_hex_pairs map_filter_all)

lemma wf_fill: "wf_instruction fill"
  by (simp add: wf_instruction_def fill_def is_hex_string_def is_bin_string_def digit_val_def)

lemma new_Instruction_wf:
  "wf_encoder enc \<Longrightarrow> new_Instruction enc args n d = Inr inst \<Longrightarrow> wf_instruction inst"
  by (auto simp: new_Instruction_def wf_encoder_def wf_fill split: sum.splits if_splits)

lemma encode_all_wf:
  "wf_encoder enc \<Longrightarrow> encode_all enc args refList i items = Inr insts \<Longrightarrow>
     \<forall>inst \<in> set insts. wf_instruction inst"
proof (induction items arbitrary: i insts)
  case Nil
  then show ?case by simp
next
  case (Cons item items)
  obtain src lineNum where item: "item = (src, lineNum)" by (cases item)
  from Cons.prems(2) obtain d inst rest where
    c: "new_Instruction enc args lineNum d = Inr inst" and
    r: "encode_all enc args refList (i + 1) items = Inr rest" and
    insts: "insts = inst # rest"
    by (auto simp: item split: sum.splits)
  from new_Instruction_wf [OF Cons.prems(1) c] Cons.IH [OF Cons.prems(1) r]
  show ?case by (simp add: insts)
qed

lemma concat_chunk:
  "\<forall>x \<in> set xss. length x = n \<Longrightarrow> k < length xss \<Longrightarrow>
     take n (drop (n * k) (concat xss)) = xss ! k"
proof (induction xss arbitrary: k)
  case Nil
  then show ?case by simp
next
  case (Cons x xss)
  show ?case
  proof (cases k)
    case 0
    with Cons.prems show ?thesis by simp
  next
    case (Suc j)
    with Cons.prems have "take n (drop (n * j) (concat xss)) = xss ! j"
      by (intro Cons.IH) auto
    with Cons.prems show ?thesis by (simp add: Suc)
  qed
qed

subsection \<open>Addresses as text\<close>

lemma digit_val_digit_char: "d < 16 \<Longrightarrow> digit_val (digit_char d) = Some d"
  by (auto simp: digit_val_def digit_char_def Let_def)

lemma digit_char_not_NL: "d < 16 \<Longrightarrow> digit_char d \<noteq> NL"
proof
  assume d: "d < 16" and "digit_char d = NL"
  then have "digit_val NL = Some d" using digit_val_digit_char by metis
  then show False by (simp add: digit_val_def NL_def)
qed

lemma ceil_log16_upper: "x \<le> 16 ^ ceil_log16 x"
proof (induction x rule: ceil_log16.induct)
  case (1 x)
  show ?case
  proof (cases "x \<le> 1")
    case True
    then show ?thesis by (subst ceil_log16.simps) simp
  next
    case False
    with 1 have "(x + 15) div 16 \<le> 16 ^ ceil_log16 ((x + 15) div 16)" by simp
    then have "x \<le> 16 * 16 ^ ceil_log16 ((x + 15) div 16)" by linarith
    with False show ?thesis by (subst ceil_log16.simps) simp
  qed
qed

lemma ceil_log16_lower: "1 < x \<Longrightarrow> 16 ^ (ceil_log16 x - 1) < x"
proof (induction x rule: ceil_log16.induct)
  case (1 x)
  let ?y = "(x + 15) div 16"
  have c: "ceil_log16 x = Suc (ceil_log16 ?y)"
    using "1.prems" by (subst ceil_log16.simps) simp
  show ?case
  proof (cases "1 < ?y")
    case True
    with 1 have lt: "16 ^ (ceil_log16 ?y - 1) < ?y" by simp
    have "0 < ceil_log16 ?y"
      using True by (subst ceil_log16.simps) simp
    then obtain c' where c': "ceil_log16 ?y = Suc c'"
      by (cases "ceil_log16 ?y") auto
    from lt c' have "(16::nat) ^ c' + 1 \<le> ?y" by simp
    then have "16 * (16::nat) ^ c' + 16 \<le> 16 * ?y" by simp
    also have "\<dots> \<le> x + 15" by simp
    finally have "(16::nat) ^ Suc c' < x" by simp
    then show ?thesis by (simp add: c c')
  next
    case False
    then have "ceil_log16 ?y = 0" by (subst ceil_log16.simps) simp
    with c "1.prems" show ?thesis by simp
  qed
qed


lemma ceil_log16_real:
  assumes "0 < x"
  shows "int (ceil_log16 x) = \<lceil>log 16 (real x)\<rceil>"
proof (cases "x = 1")
  case True
  then show ?thesis by (subst ceil_log16.simps) simp
next
  case False
  with assms have x: "1 < x" by simp
  let ?w = "ceil_log16 x"
  have w: "0 < ?w" using x by (subst ceil_log16.simps) simp
  have up: "real x \<le> 16 ^ ?w"
    using ceil_log16_upper [of x] by (metis of_nat_le_iff of_nat_numeral of_nat_power)
  have lo: "(16::real) ^ (?w - 1) < real x"
    using ceil_log16_lower [OF x] by (metis of_nat_less_iff of_nat_numeral of_nat_power)
  have "log 16 (real x) \<le> real ?w"
    using up assms by (simp add: log_le_iff powr_realpow)
  moreover have "real (?w - 1) < log 16 (real x)"
    using lo assms by (simp add: less_log_iff powr_realpow)
  ultimately have "\<lceil>log 16 (real x)\<rceil> = int ?w"
    using w by (intro ceiling_unique) (auto simp: of_nat_diff)
  then show ?thesis by simp
qed


lemma toString16_length:
  "n < 16 ^ w \<Longrightarrow> 0 < w \<Longrightarrow> length (toString16 n) \<le> w"
proof (induction n arbitrary: w rule: toString16.induct)
  case (1 n)
  show ?case
  proof (cases "n < 16")
    case True
    then show ?thesis using "1.prems" by (subst toString16.simps) simp
  next
    case False
    obtain v where v: "w = Suc v" using "1.prems"(2) by (cases w) auto
    from "1.prems"(1) have d: "n div 16 < 16 ^ v"
      by (simp add: v less_mult_imp_div_less mult.commute)
    have "0 < v"
    proof (rule ccontr)
      assume "\<not> 0 < v"
      with "1.prems"(1) v False show False by simp
    qed
    with "1.IH" [OF False d] have "length (toString16 (n div 16)) \<le> v" by simp
    then show ?thesis using False by (subst toString16.simps) (simp add: v)
  qed
qed

lemma hex_value_snoc:
  "hex_value (s @ [c]) = 16 * hex_value s + (case digit_val c of None \<Rightarrow> 0 | Some v \<Rightarrow> v)"
  by (simp add: hex_value_def)

lemma hex_value_toString16: "hex_value (toString16 n) = n"
proof (induction n rule: toString16.induct)
  case (1 n)
  show ?case
  proof (cases "n < 16")
    case True
    have "hex_value [digit_char n] = n"
      using hex_value_snoc [of "[]" "digit_char n"] digit_val_digit_char [OF True]
      by (simp add: hex_value_def)
    with True show ?thesis by (subst toString16.simps) simp
  next
    case False
    have "n mod 16 < 16" by simp
    from digit_val_digit_char [OF this] "1.IH" [OF False] False
    show ?thesis by (subst toString16.simps) (simp add: hex_value_snoc)
  qed
qed

lemma hex_value_zeros: "hex_value (replicate m (CHR ''0'') @ s) = hex_value s"
proof (induction m)
  case 0
  show ?case by simp
next
  case (Suc m)
  have "hex_value (CHR ''0'' # t) = hex_value t" for t
    by (simp add: hex_value_def digit_val_def)
  with Suc show ?case by simp
qed

lemma toString16_digits: "c \<in> set (toString16 n) \<Longrightarrow> \<exists>d < 16. c = digit_char d"
proof (induction n rule: toString16.induct)
  case (1 n)
  show ?case
  proof (cases "n < 16")
    case True
    with "1.prems" have "c = digit_char n" by (subst (asm) toString16.simps) simp
    with True show ?thesis by blast
  next
    case False
    with "1.prems" have "c \<in> set (toString16 (n div 16)) \<or> c = digit_char (n mod 16)"
      by (subst (asm) toString16.simps) auto
    then show ?thesis
    proof
      assume "c \<in> set (toString16 (n div 16))"
      with "1.IH" [OF False] show ?thesis by blast
    next
      assume "c = digit_char (n mod 16)"
      moreover have "n mod 16 < 16" by simp
      ultimately show ?thesis by blast
    qed
  qed
qed

lemma addr_text_digits: "c \<in> set (addr_text w i) \<Longrightarrow> \<exists>d < 16. c = digit_char d"
proof -
  assume "c \<in> set (addr_text w i)"
  then have "c = CHR ''0'' \<or> c \<in> set (toString16 (i * 4))"
    by (auto simp: addr_text_def padStart_def)
  moreover have "CHR ''0'' = digit_char 0" by code_simp
  ultimately show ?thesis using toString16_digits by (metis zero_less_numeral)
qed

lemma addr_text_props:
  assumes "k < n"
  shows "length (addr_text (ceil_log16 (n * 4)) k) = ceil_log16 (n * 4)"
    and "hex_value (addr_text (ceil_log16 (n * 4)) k) = k * 4"
    and "is_hex_string (addr_text (ceil_log16 (n * 4)) k)"
    and "addr_text (ceil_log16 (n * 4)) k
           = replicate (ceil_log16 (n * 4) - length (toString16 (k * 4))) (CHR ''0'') @ toString16 (k * 4)"
proof -
  let ?w = "ceil_log16 (n * 4)"
  from assms have "1 < n * 4" by simp
  then have w: "0 < ?w" by (subst ceil_log16.simps) simp
  have "k * 4 < n * 4" using assms by simp
  also have "\<dots> \<le> 16 ^ ?w" by (rule ceil_log16_upper)
  finally have "length (toString16 (k * 4)) \<le> ?w" using w by (rule toString16_length)
  then show "length (addr_text ?w k) = ?w"
    by (simp add: addr_text_def padStart_def)
  show "hex_value (addr_text ?w k) = k * 4"
    by (simp add: addr_text_def padStart_def hex_value_zeros hex_value_toString16)
  show "is_hex_string (addr_text ?w k)"
    using addr_text_digits [of _ ?w k] digit_val_digit_char
    by (fastforce simp: is_hex_string_def list_all_iff)
  show "addr_text ?w k = replicate (?w - length (toString16 (k * 4))) (CHR ''0'') @ toString16 (k * 4)"
    by (simp add: addr_text_def padStart_def)
qed

subsection \<open>The line-classification pass\<close>

lemma str_includes_char: "str_includes s [c] \<longleftrightarrow> c \<in> set s"
  by (induction s) auto

lemma set_trim: "set (trim s) \<subseteq> set s"
proof -
  have "set (trim s) = set (dropWhile is_space (rev (dropWhile is_space s)))"
    by (simp add: trim_def)
  also have "\<dots> \<subseteq> set (rev (dropWhile is_space s))"
    by (auto dest: set_dropWhileD)
  also have "\<dots> \<subseteq> set s"
    by (auto dest: set_dropWhileD)
  finally show ?thesis .
qed

lemma trim_keeps: "c \<in> set s \<Longrightarrow> \<not> is_space c \<Longrightarrow> c \<in> set (trim s)"
proof -
  assume c: "c \<in> set s" and n: "\<not> is_space c"
  have a: "c \<in> set (dropWhile is_space t)" if "c \<in> set t" for t
    using that n by (induction t) auto
  from a [OF c] have "c \<in> set (rev (dropWhile is_space s))" by simp
  from a [OF this] show ?thesis by (simp add: trim_def)
qed

lemma colon_not_space: "\<not> is_space (CHR '':'')"
  by (simp add: is_space_def)

lemma split_char_two:
  "d \<in> set s \<Longrightarrow> \<exists>p q rest. split_char d s = p # q # rest"
proof (induction s)
  case Nil
  then show ?case by simp
next
  case (Cons c cs)
  show ?case
  proof (cases "c = d")
    case True
    obtain q rest where "split_char d cs = q # rest"
      using split_char_not_Nil [of d cs] by (cases "split_char d cs") auto
    with True show ?thesis by (simp add: split_char_sep)
  next
    case False
    with Cons.prems have "d \<in> set cs" by auto
    from Cons.IH [OF this] obtain p q rest where "split_char d cs = p # q # rest" by blast
    with False show ?thesis by (simp add: split_char_other)
  qed
qed

lemma parseRef_loop_insts:
  "parseRef_loop i codes refList insts lineMap = Inr (insts', refList', lineMap') \<Longrightarrow>
     insts' = insts @ map fst (inst_lines i codes) \<and>
     lineMap' = lineMap @ map snd (inst_lines i codes)"
proof (induction codes arbitrary: i refList insts lineMap)
  case Nil
  then show ?case by simp
next
  case (Cons code codes)
  show ?case
  proof (cases "str_includes code '':''")
    case False
    with Cons.prems have
      "parseRef_loop (i + 1) codes refList (insts @ [trim code]) (lineMap @ [i + 1])
         = Inr (insts', refList', lineMap')"
      by simp
    from Cons.IH [OF this] False show ?thesis
      by (simp add: is_label_only_def inst_text_def)
  next
    case True
    then have "CHR '':'' \<in> set (trim code)"
      by (simp add: str_includes_char trim_keeps colon_not_space)
    from split_char_two [OF this] obtain refName q rest where
      sp: "split_char (CHR '':'') (trim code) = refName # q # rest" by blast
    show ?thesis
    proof (cases "endsWith (trim code) '':''")
      case e: True
      with Cons.prems True sp have
        "parseRef_loop (i + 1) codes (refList @ [(refName, length insts * 4)]) insts lineMap
           = Inr (insts', refList', lineMap')"
        by (simp add: Let_def split: if_splits)
      from Cons.IH [OF this] True e show ?thesis
        by (simp add: is_label_only_def)
    next
      case e: False
      with Cons.prems True sp have
        "parseRef_loop (i + 1) codes (refList @ [(refName, length insts * 4)])
           (insts @ [trim q]) (lineMap @ [i + 1])
           = Inr (insts', refList', lineMap')"
        by (simp add: Let_def split: if_splits)
      from Cons.IH [OF this] True e sp show ?thesis
        by (simp add: is_label_only_def inst_text_def)
    qed
  qed
qed

lemma parseRef_insts:
  assumes "parseRef commands = Inr (srcs, refList, lineMap)"
  shows "srcs = map fst (inst_lines 0 (nonempty_lines commands))"
    and "lineMap = map snd (inst_lines 0 (nonempty_lines commands))"
    and "zip srcs lineMap = inst_lines 0 (nonempty_lines commands)"
    and "length lineMap = length srcs"
proof -
  from assms have
    "parseRef_loop 0 (nonempty_lines commands) [] [] [] = Inr (srcs, refList, lineMap)"
    by (simp add: parseRef_def split_codes_nonempty_lines)
  from parseRef_loop_insts [OF this]
  show a: "srcs = map fst (inst_lines 0 (nonempty_lines commands))"
    and b: "lineMap = map snd (inst_lines 0 (nonempty_lines commands))"
    by simp_all
  show "zip srcs lineMap = inst_lines 0 (nonempty_lines commands)"
    by (simp add: a b zip_map_fst_snd)
  show "length lineMap = length srcs" by (simp add: a b)
qed

lemma run_char:
  assumes "parseRef commands = Inr (srcs, refList, lineMap)"
  shows "run enc commands args =
     (case encode_all enc args refList 0 (zip srcs lineMap) of
        Inl e \<Rightarrow> Inl e
      | Inr insts \<Rightarrow>
          Inr (if outputMode args = RawBytes
               then concat (map (\<lambda>inst. fromHex (hex inst)) insts)
               else strToByteArray (join [NL]
                      (text_lines args (invRef refList) (ceil_log16 (length srcs * 4)) 0 srcs insts))))"
proof -
  have "map fst (zip srcs lineMap) = srcs"
    using parseRef_insts(4) [OF assms] by simp
  then show ?thesis
    by (simp add: run_eq assms split: sum.splits)
qed

lemma nonempty_lines_no_NL: "l \<in> set (nonempty_lines s) \<Longrightarrow> NL \<notin> set l"
  using split_char_pieces [of l NL s] by (simp add: nonempty_lines_def)

lemma set_label_of: "set (label_of code) \<subseteq> set code"
proof -
  have "hd (split_char (CHR '':'') (trim code)) \<in> set (split_char (CHR '':'') (trim code))"
    using split_char_not_Nil by simp
  from split_char_pieces [OF this] set_trim [of code] show ?thesis
    by (auto simp: label_of_def)
qed

lemma set_inst_text: "set (inst_text code) \<subseteq> set code"
proof (cases "str_includes code '':''")
  case False
  then show ?thesis using set_trim [of code] by (simp add: inst_text_def)
next
  case True
  then have "CHR '':'' \<in> set (trim code)"
    by (simp add: str_includes_char trim_keeps colon_not_space)
  from split_char_two [OF this] obtain p q rest where
    sp: "split_char (CHR '':'') (trim code) = p # q # rest" by blast
  then have "q \<in> set (split_char (CHR '':'') (trim code))" by simp
  from split_char_pieces [OF this] have "set q \<subseteq> set (trim code)" by simp
  with set_trim [of q] set_trim [of code] True sp show ?thesis
    by (auto simp: inst_text_def)
qed

lemma inst_lines_fst:
  "src \<in> fst ` set (inst_lines i codes) \<Longrightarrow> \<exists>code \<in> set codes. src = inst_text code"
  by (induction codes arbitrary: i) (auto split: if_splits)

lemma parseRef_srcs_no_NL:
  assumes "parseRef commands = Inr (srcs, refList, lineMap)" and "src \<in> set srcs"
  shows "NL \<notin> set src"
proof -
  from assms have "src \<in> fst ` set (inst_lines 0 (nonempty_lines commands))"
    using parseRef_insts(1) [OF assms(1)] by simp
  from inst_lines_fst [OF this] obtain code where
    "code \<in> set (nonempty_lines commands)" and "src = inst_text code" by blast
  with nonempty_lines_no_NL [of code commands] set_inst_text [of code] show ?thesis by auto
qed

lemma parseRef_loop_refs:
  "parseRef_loop i codes refList insts lineMap = Inr (insts', refList', lineMap') \<Longrightarrow>
     fst ` set refList' \<subseteq> fst ` set refList \<union> label_of ` set codes"
proof (induction codes arbitrary: i refList insts lineMap)
  case Nil
  then show ?case by simp
next
  case (Cons code codes)
  show ?case
  proof (cases "str_includes code '':''")
    case False
    with Cons.prems have
      "parseRef_loop (i + 1) codes refList (insts @ [trim code]) (lineMap @ [i + 1])
         = Inr (insts', refList', lineMap')"
      by simp
    from Cons.IH [OF this] show ?thesis by auto
  next
    case True
    then have "CHR '':'' \<in> set (trim code)"
      by (simp add: str_includes_char trim_keeps colon_not_space)
    from split_char_two [OF this] obtain refName q rest where
      sp: "split_char (CHR '':'') (trim code) = refName # q # rest" by blast
    then have l: "label_of code = refName" by (simp add: label_of_def)
    show ?thesis
    proof (cases "endsWith (trim code) '':''")
      case e: True
      with Cons.prems True sp have
        "parseRef_loop (i + 1) codes (refList @ [(refName, length insts * 4)]) insts lineMap
           = Inr (insts', refList', lineMap')"
        by (simp add: Let_def split: if_splits)
      from Cons.IH [OF this] l show ?thesis by auto
    next
      case e: False
      with Cons.prems True sp have
        "parseRef_loop (i + 1) codes (refList @ [(refName, length insts * 4)])
           (insts @ [trim q]) (lineMap @ [i + 1])
           = Inr (insts', refList', lineMap')"
        by (simp add: Let_def split: if_splits)
      from Cons.IH [OF this] l show ?thesis by auto
    qed
  qed
qed

lemma parseRef_names_no_NL:
  assumes "parseRef commands = Inr (srcs, refList, lineMap)" and "name \<in> fst ` set refList"
  shows "NL \<notin> set name"
proof -
  from assms(1) have
    "parseRef_loop 0 (nonempty_lines commands) [] [] [] = Inr (srcs, refList, lineMap)"
    by (simp add: parseRef_def split_codes_nonempty_lines)
  from parseRef_loop_refs [OF this] assms(2) obtain code where
    "code \<in> set (nonempty_lines commands)" and "name = label_of code" by auto
  with nonempty_lines_no_NL [of code commands] set_label_of [of code] show ?thesis by auto
qed

lemma invRef_fold_names:
  "fold (\<lambda>(ref, dest) invRefList.
             case invRefList dest of
               None \<Rightarrow> invRefList(dest \<mapsto> [ref])
             | Some refs \<Rightarrow> invRefList(dest \<mapsto> refs @ [ref])) refList m a = Some names \<Longrightarrow>
     set names \<subseteq> fst ` set refList \<union> \<Union> (set ` ran m)"
proof (induction refList arbitrary: m)
  case Nil
  then show ?case by (auto simp: ran_def)
next
  case (Cons r refList)
  obtain ref dest where r: "r = (ref, dest)" by (cases r)
  let ?m = "case m dest of None \<Rightarrow> m(dest \<mapsto> [ref]) | Some refs \<Rightarrow> m(dest \<mapsto> refs @ [ref])"
  from Cons.prems have "fold (\<lambda>(ref, dest) invRefList.
             case invRefList dest of
               None \<Rightarrow> invRefList(dest \<mapsto> [ref])
             | Some refs \<Rightarrow> invRefList(dest \<mapsto> refs @ [ref])) refList ?m a = Some names"
    by (simp add: r)
  from Cons.IH [OF this] have "set names \<subseteq> fst ` set refList \<union> \<Union> (set ` ran ?m)" .
  moreover have "\<Union> (set ` ran ?m) \<subseteq> insert ref (\<Union> (set ` ran m))"
    by (auto simp: ran_def split: option.splits if_splits)
  ultimately show ?case by (auto simp: r)
qed

lemma invRef_names: "invRef refList a = Some names \<Longrightarrow> set names \<subseteq> fst ` set refList"
  using invRef_fold_names [of refList Map.empty a names] by (simp add: invRef_def)

lemma set_join: "set (join sep xs) \<subseteq> set sep \<union> \<Union> (set ` set xs)"
  by (induction sep xs rule: join.induct) auto

subsection \<open>The text of the output\<close>

lemma split_char_none: "d \<notin> set x \<Longrightarrow> split_char d x = [x]"
proof (induction x)
  case Nil
  show ?case by (simp add: split_char_Nil)
next
  case (Cons c x)
  then have "c \<noteq> d" by auto
  from split_char_other [OF this] Cons show ?case by simp
qed

lemma split_char_append: "d \<notin> set x \<Longrightarrow> split_char d (x @ d # r) = x # split_char d r"
proof (induction x)
  case Nil
  show ?case by (simp add: split_char_sep)
next
  case (Cons c x)
  then have "c \<noteq> d" by auto
  from split_char_other [OF this] Cons show ?case by simp
qed

lemma split_char_join:
  "\<forall>l \<in> set ls. NL \<notin> set l \<Longrightarrow> ls \<noteq> [] \<Longrightarrow> split_char NL (join [NL] ls) = ls"
proof (induction "[NL]" ls rule: join.induct)
  case 1
  then show ?case by simp
next
  case (2 x)
  then show ?case by (simp add: split_char_none)
next
  case (3 x y ys)
  then show ?case by (simp add: split_char_append)
qed

lemma last_join:
  "\<forall>l \<in> set ls. l \<noteq> [] \<Longrightarrow> ls \<noteq> [] \<Longrightarrow> last (join sep ls) = last (last ls)"
proof (induction sep ls rule: join.induct)
  case (1 sep)
  then show ?case by simp
next
  case (2 sep x)
  then show ?case by simp
next
  case (3 sep x y ys)
  then have "join sep (y # ys) \<noteq> []" by (cases ys) auto
  with 3 show ?case by simp
qed

lemma hex_string_no_NL: "is_hex_string s \<Longrightarrow> NL \<notin> set s"
proof -
  have "digit_val NL = None" by (simp add: digit_val_def NL_def)
  then show "is_hex_string s \<Longrightarrow> NL \<notin> set s"
    by (auto simp: is_hex_string_def list_all_iff)
qed

lemma bin_string_no_NL: "is_bin_string s \<Longrightarrow> NL \<notin> set s"
proof -
  have "NL \<noteq> CHR ''0''" "NL \<noteq> CHR ''1''" by (simp_all add: NL_def)
  then show "is_bin_string s \<Longrightarrow> NL \<notin> set s"
    by (auto simp: is_bin_string_def list_all_iff)
qed

lemma addr_text_no_NL: "NL \<notin> set (addr_text w i)"
proof
  assume "NL \<in> set (addr_text w i)"
  from addr_text_digits [OF this] obtain d where "d < 16" and "NL = digit_char d" by blast
  with digit_char_not_NL [of d] show False by simp
qed

lemma label_suffix_no_NL:
  assumes "\<And>names name. invRefList (i * 4) = Some names \<Longrightarrow> name \<in> set names \<Longrightarrow> NL \<notin> set name"
  shows "NL \<notin> set (label_suffix invRefList i)"
proof (cases "invRefList (i * 4)")
  case None
  then show ?thesis by (simp add: label_suffix_def)
next
  case (Some names)
  have c: "NL \<noteq> CHR '',''" "NL \<noteq> CHR '' ''" by (simp_all add: NL_def)
  have "set (join '', '' names) \<subseteq> set '', '' \<union> \<Union> (set ` set names)"
    by (rule set_join)
  with assms [OF Some] c have j: "NL \<notin> set (join '', '' names)" by auto
  have p: "NL \<notin> set '' (label: ''" "NL \<notin> set '')''" by (simp_all add: NL_def)
  show ?thesis using j p by (simp only: label_suffix_def Some option.case set_append Un_iff) blast
qed

lemma out_line_no_NL:
  assumes "wf_instruction inst" and "NL \<notin> set src"
    and "\<And>names name. invRefList (i * 4) = Some names \<Longrightarrow> name \<in> set names \<Longrightarrow> NL \<notin> set name"
  shows "NL \<notin> set (out_line args invRefList w i src inst)"
proof -
  have h: "NL \<notin> set (hex inst)" and b: "NL \<notin> set (bin inst)"
    using assms(1) by (simp_all add: wf_instruction_def hex_string_no_NL bin_string_no_NL)
  have t: "NL \<notin> set (trim src)" using assms(2) set_trim [of src] by auto
  have l: "NL \<notin> set (label_suffix invRefList i)"
    by (rule label_suffix_no_NL) (rule assms(3))
  have c: "NL \<noteq> CHR ''0''" "NL \<noteq> CHR ''x''" "NL \<noteq> CHR '':''" "NL \<noteq> CHR '' ''"
    "NL \<noteq> CHR ''[''" "NL \<noteq> CHR '']''"
    by (simp_all add: NL_def)
  have a: "NL \<notin> set (addr_text w i)" by (rule addr_text_no_NL)
  have p1: "NL \<notin> set ''0x''" "NL \<notin> set '': ''" "NL \<notin> set '' [ ''" "NL \<notin> set '' ]''"
    using c by simp_all
  show ?thesis
    unfolding out_line_def Let_def using h b t l a p1 by (simp only: set_append Un_iff split: if_splits) blast
qed

lemma out_line_nonempty:
  assumes "wf_instruction inst"
  shows "out_line args invRefList w i src inst \<noteq> []"
proof -
  have "hex inst \<noteq> []" "bin inst \<noteq> []"
    using assms by (auto simp: wf_instruction_def)
  then show ?thesis by (simp add: out_line_def Let_def)
qed

lemma text_lines_set:
  "length srcs = length insts \<Longrightarrow> l \<in> set (text_lines args ivl w i srcs insts) \<Longrightarrow>
     \<exists>k < length srcs. l = out_line args ivl w (i + k) (srcs ! k) (insts ! k)"
proof -
  assume len: "length srcs = length insts" and l: "l \<in> set (text_lines args ivl w i srcs insts)"
  from l obtain k where k: "k < length (text_lines args ivl w i srcs insts)"
    and lk: "l = text_lines args ivl w i srcs insts ! k"
    by (auto simp: in_set_conv_nth)
  from k have "k < length srcs" by (simp add: text_lines_length [OF len])
  with lk text_lines_nth [OF len this] show ?thesis by auto
qed

lemma wf_enc_demo: "wf_encoder enc_demo"
  by (auto simp: wf_encoder_def enc_demo_def wf_instruction_def is_hex_string_def
        is_bin_string_def digit_val_def split: if_splits)

lemma run_success:
  assumes p: "parseRef commands = Inr (srcs, refList, lineMap)"
    and r: "run enc commands args = Inr out"
  obtains insts where "encode_all enc args refList 0 (zip srcs lineMap) = Inr insts"
    and "length insts = length srcs"
    and "out = (if outputMode args = RawBytes
               then concat (map (\<lambda>inst. fromHex (hex inst)) insts)
               else strToByteArray (join [NL]
                      (text_lines args (invRef refList) (ceil_log16 (length srcs * 4)) 0 srcs insts)))"
proof -
  from r obtain insts where e: "encode_all enc args refList 0 (zip srcs lineMap) = Inr insts"
    by (auto simp: run_char [OF p] split: sum.splits)
  have "length insts = length srcs"
    using encode_all_length [OF e] parseRef_insts(4) [OF p] by simp
  moreover from r e have "out = (if outputMode args = RawBytes
               then concat (map (\<lambda>inst. fromHex (hex inst)) insts)
               else strToByteArray (join [NL]
                      (text_lines args (invRef refList) (ceil_log16 (length srcs * 4)) 0 srcs insts)))"
    by (simp add: run_char [OF p])
  ultimately show ?thesis using that e by blast
qed

lemma parse_prog_loop:
  "parseRef prog_loop = Inr ([''addi x1, x1, 1'', ''beq x1, x2, loop''], [(''loop'', 0)], [2, 3])"
  by code_simp

lemma out_line_addr:
  assumes "showAddr args"
  shows "\<exists>rest. out_line args ivl w i src inst = ''0x'' @ addr_text w i @ '': '' @ rest"
  using assms by (simp add: out_line_def Let_def)

lemma new_Instruction_lenient:
  "ignoreIllegal args \<Longrightarrow>
     new_Instruction enc args n d = Inr (case enc (isa args) d of Inr inst \<Rightarrow> inst | Inl msg \<Rightarrow> fill)"
  by (simp add: new_Instruction_def split: sum.splits)

lemma encode_all_lenient:
  "ignoreIllegal args \<Longrightarrow> length ds = length items \<Longrightarrow>
   \<forall>k < length items. deref (fst (items ! k)) refList (snd (items ! k)) ((i + k) * 4) = Inr (ds ! k) \<Longrightarrow>
     encode_all enc args refList i items
       = Inr (map (\<lambda>d. case enc (isa args) d of Inr inst \<Rightarrow> inst | Inl msg \<Rightarrow> fill) ds)"
proof (induction items arbitrary: i ds)
  case Nil
  then show ?case by simp
next
  case (Cons item items)
  obtain src lineNum where item: "item = (src, lineNum)" by (cases item)
  from Cons.prems(2) obtain d ds' where ds: "ds = d # ds'" and len: "length ds' = length items"
    by (cases ds) auto
  from Cons.prems(3) have d: "deref src refList lineNum (i * 4) = Inr d"
    by (auto simp: item ds dest: spec [of _ 0])
  have "\<forall>k < length items.
          deref (fst (items ! k)) refList (snd (items ! k)) ((i + 1 + k) * 4) = Inr (ds' ! k)"
  proof (intro allI impI)
    fix k assume "k < length items"
    then have "Suc k < length (item # items)" by simp
    with Cons.prems(3) have
      "deref (fst ((item # items) ! Suc k)) refList (snd ((item # items) ! Suc k)) ((i + Suc k) * 4)
         = Inr (ds ! Suc k)"
      by blast
    then show "deref (fst (items ! k)) refList (snd (items ! k)) ((i + 1 + k) * 4) = Inr (ds' ! k)"
      by (simp add: ds)
  qed
  from Cons.IH [OF Cons.prems(1) len this] d show ?case
    by (simp add: item ds new_Instruction_lenient [OF Cons.prems(1)])
qed

lemma fill_values:
  "fromHex (hex fill) = [255, 255, 255, 255]"
  "hex fill = ''ffffffff''"
  "bin fill = replicate 32 (CHR ''1'')"
  by (code_simp, simp add: fill_def, code_simp)

lemma deref_prog_loop:
  "deref ''addi x1, x1, 1'' [(''loop'', 0)] 2 (0 * 4) = Inr ''addi x1, x1, 1''"
  "deref ''beq x1, x2, loop'' [(''loop'', 0)] 3 ((0 + 1) * 4) = Inr ''beq x1 x2 -4''"
  by code_simp+

lemma get_ref_append:
  "get_ref refList name \<noteq> Undefined \<Longrightarrow> get_ref (refList @ [x]) name \<noteq> Undefined"
  by (auto simp: get_ref_def map_add_def split: option.splits if_splits)

lemma get_ref_defined: "get_ref (refList @ [(name, a)]) name \<noteq> Undefined"
  by (auto simp: get_ref_def map_add_def split: option.splits if_splits)

lemma label_line_split:
  assumes "str_includes code '':''"
  obtains q rest where "split_char (CHR '':'') (trim code) = label_of code # q # rest"
proof -
  from assms have "CHR '':'' \<in> set (trim code)"
    by (simp add: str_includes_char trim_keeps colon_not_space)
  from split_char_two [OF this] obtain p q rest where
    "split_char (CHR '':'') (trim code) = p # q # rest" by blast
  then show ?thesis using that by (simp add: label_of_def)
qed

lemma run_parse_error: "parseRef commands = Inl e \<Longrightarrow> run enc commands args = Inl e"
  by (simp add: run_def)

lemma parseRef_loop_plain:
  "\<forall>l \<in> set codes. \<not> str_includes l '':'' \<Longrightarrow>
     parseRef_loop i codes refList insts lineMap
       = Inr (insts @ map trim codes, refList, lineMap @ [i + 1..<i + 1 + length codes])"
proof (induction codes arbitrary: i insts lineMap)
  case Nil
  show ?case by simp
next
  case (Cons code codes)
  then have "parseRef_loop i (code # codes) refList insts lineMap
               = parseRef_loop (i + 1) codes refList (insts @ [trim code]) (lineMap @ [i + 1])"
    by simp
  also have "\<dots> = Inr ((insts @ [trim code]) @ map trim codes, refList,
                       (lineMap @ [i + 1]) @ [i + 1 + 1..<i + 1 + 1 + length codes])"
    using Cons.prems by (intro Cons.IH) simp
  also have "(lineMap @ [i + 1]) @ [i + 1 + 1..<i + 1 + 1 + length codes]
               = lineMap @ [i + 1..<i + 1 + length (code # codes)]"
  proof -
    have "i + 1 < i + 1 + length (code # codes)" by simp
    from upt_conv_Cons [OF this]
    have "[i + 1..<i + 1 + length (code # codes)] = (i + 1) # [i + 1 + 1..<i + 1 + 1 + length codes]"
      by simp
    then show ?thesis by simp
  qed
  finally show ?case by simp
qed

lemma nonempty_lines_newlines: "set s \<subseteq> {NL} \<Longrightarrow> nonempty_lines s = []"
proof (induction s)
  case Nil
  show ?case by (simp add: nonempty_lines_def split_char_Nil)
next
  case (Cons c s)
  then have "c = NL" and "nonempty_lines s = []" by auto
  then show ?case by (simp add: nonempty_lines_def split_char_sep)
qed

lemma run_depends_on_nonempty_lines:
  "nonempty_lines commands' = nonempty_lines commands \<Longrightarrow>
     run enc commands' args = run enc commands args"
  by (simp add: run_def parseRef_def split_codes_nonempty_lines)

lemma inst_lines_fst_map:
  "map fst (inst_lines i codes) = map inst_text (filter (\<lambda>c. \<not> is_label_only c) codes)"
  by (induction codes arbitrary: i) auto

subsection \<open>The line number of an error\<close>

text \<open>The number in the error for a rejected instruction is the position of its line
  among the non-empty lines of the text.\<close>

lemma deref_error: "deref src refList n a = Inl e \<Longrightarrow> e = UndefinedLabel n (last (split_runs is_delim src))"
  by (auto simp: deref_def Let_def split: if_splits js_value.splits)

lemma encode_all_illegal:
  "encode_all enc args refList i items = Inl (IllegalInstruction n msg) \<Longrightarrow>
     \<exists>k < length items. snd (items ! k) = n \<and> \<not> ignoreIllegal args \<and>
        (\<exists>d. deref (fst (items ! k)) refList n ((i + k) * 4) = Inr d \<and> enc (isa args) d = Inl msg)"
proof (induction items arbitrary: i)
  case Nil
  then show ?case by simp
next
  case (Cons item items)
  obtain src lineNum where item: "item = (src, lineNum)" by (cases item)
  show ?case
  proof (cases "deref src refList lineNum (i * 4)")
    case (Inl e)
    with Cons.prems deref_error [OF Inl] show ?thesis by (simp add: item)
  next
    case d: (Inr d)
    show ?thesis
    proof (cases "new_Instruction enc args lineNum d")
      case (Inl e)
      with Cons.prems d have e: "e = IllegalInstruction n msg" by (simp add: item)
      with Inl have "lineNum = n \<and> \<not> ignoreIllegal args \<and> enc (isa args) d = Inl msg"
        by (auto simp: new_Instruction_def split: sum.splits if_splits)
      with d show ?thesis by (intro exI [of _ 0]) (simp add: item)
    next
      case (Inr inst)
      with Cons.prems d have "encode_all enc args refList (i + 1) items = Inl (IllegalInstruction n msg)"
        by (simp add: item split: sum.splits)
      from Cons.IH [OF this] obtain k where k: "k < length items" "snd (items ! k) = n"
        "\<not> ignoreIllegal args"
        "\<exists>d. deref (fst (items ! k)) refList n ((i + 1 + k) * 4) = Inr d \<and> enc (isa args) d = Inl msg"
        by blast
      then show ?thesis by (intro exI [of _ "Suc k"]) simp
    qed
  qed
qed

lemma inst_lines_numbers:
  "k < length (inst_lines i codes) \<Longrightarrow>
     i < snd (inst_lines i codes ! k) \<and> snd (inst_lines i codes ! k) \<le> i + length codes \<and>
     fst (inst_lines i codes ! k) = inst_text (codes ! (snd (inst_lines i codes ! k) - i - 1))"
proof (induction codes arbitrary: i k)
  case Nil
  then show ?case by simp
next
  case (Cons code codes)
  show ?case
  proof (cases "is_label_only code")
    case True
    with Cons.prems have k: "k < length (inst_lines (i + 1) codes)" by simp
    from Cons.IH [OF k] True show ?thesis by (auto simp: nth_Cons')
  next
    case False
    show ?thesis
    proof (cases k)
      case 0
      with False show ?thesis by simp
    next
      case (Suc j)
      with Cons.prems False have j: "j < length (inst_lines (i + 1) codes)" by simp
      from Cons.IH [OF j] False Suc show ?thesis by (auto simp: nth_Cons')
    qed
  qed
qed

lemma error_line_number:
  assumes "run enc commands args = Inl (IllegalInstruction n msg)"
  shows "0 < n \<and> n \<le> length (nonempty_lines commands) \<and> \<not> ignoreIllegal args \<and>
         (\<exists>refList a d.
             deref (inst_text (nonempty_lines commands ! (n - 1))) refList n a = Inr d
           \<and> enc (isa args) d = Inl msg)"
proof -
  from assms obtain srcs refList lineMap where
    p: "parseRef commands = Inr (srcs, refList, lineMap)"
  proof (cases "parseRef commands")
    case (Inl e)
    then have "run enc commands args = Inl e" by (rule run_parse_error)
    with assms have e: "e = IllegalInstruction n msg" by simp
    let ?codes = "nonempty_lines commands"
    have "parseRef_loop i codes rl ins lm \<noteq> Inl (IllegalInstruction n msg)" for i codes rl ins lm
    proof (induction codes arbitrary: i rl ins lm)
      case Nil
      show ?case by simp
    next
      case (Cons code codes)
      show ?case using Cons.IH by (auto simp: Let_def split: list.splits)
    qed
    with Inl e show ?thesis by (simp add: parseRef_def)
  next
    case (Inr r)
    then show ?thesis using that by (cases r) auto
  qed
  let ?items = "inst_lines 0 (nonempty_lines commands)"
  have z: "zip srcs lineMap = ?items" by (rule parseRef_insts(3) [OF p])
  from assms have "encode_all enc args refList 0 ?items = Inl (IllegalInstruction n msg)"
    by (auto simp: run_char [OF p] z split: sum.splits)
  from encode_all_illegal [OF this] obtain k d where
    k: "k < length ?items" and n: "snd (?items ! k) = n" and ni: "\<not> ignoreIllegal args" and
    d: "deref (fst (?items ! k)) refList n ((0 + k) * 4) = Inr d" and e: "enc (isa args) d = Inl msg"
    by blast
  from inst_lines_numbers [OF k] n have
    "0 < n" "n \<le> length (nonempty_lines commands)"
    "fst (?items ! k) = inst_text (nonempty_lines commands ! (n - 1))"
    by simp_all
  with d e ni show ?thesis by auto
qed

subsection \<open>Ignoring illegal instructions\<close>

lemma encode_all_cong:
  "(\<And>n d. new_Instruction enc args n d = new_Instruction enc' args n d) \<Longrightarrow>
     encode_all enc args refList i items = encode_all enc' args refList i items"
proof (induction items arbitrary: i)
  case Nil
  show ?case by simp
next
  case (Cons item items)
  obtain src lineNum where item: "item = (src, lineNum)" by (cases item)
  show ?case
    using Cons.IH [OF Cons.prems] Cons.prems by (simp add: item cong: sum.case_cong)
qed

lemma run_lenient:
  assumes "ignoreIllegal args"
  shows "run enc commands args
           = run (\<lambda>w s. case enc w s of Inl msg \<Rightarrow> Inr fill | Inr inst \<Rightarrow> Inr inst) commands args"
proof -
  have "new_Instruction enc args n d
          = new_Instruction (\<lambda>w s. case enc w s of Inl msg \<Rightarrow> Inr fill | Inr inst \<Rightarrow> Inr inst) args n d"
    for n d
    using assms by (simp add: new_Instruction_def split: sum.splits)
  from encode_all_cong [of enc args, OF this]
  have eq: "encode_all enc args refList i items
          = encode_all (\<lambda>w s. case enc w s of Inl msg \<Rightarrow> Inr fill | Inr inst \<Rightarrow> Inr inst) args
              refList i items" for refList i items .
  show ?thesis
    by (simp add: run_eq eq cong: sum.case_cong prod.case_cong)
qed

lemma run_lenient_no_illegal:
  assumes "ignoreIllegal args"
  shows "run enc commands args \<noteq> Inl (IllegalInstruction n msg)"
  using assms error_line_number [of enc commands args n msg] by blast

lemma ignore_illegal_slots:
  assumes ig: "ignoreIllegal args"
    and p: "parseRef commands = Inr (srcs, refList, lineMap)"
    and len: "length ds = length srcs"
    and ok: "\<forall>k < length srcs. deref (srcs ! k) refList (lineMap ! k) (k * 4) = Inr (ds ! k)"
  shows "\<exists>insts.
           length insts = length srcs
         \<and> (\<forall>k < length srcs.
               insts ! k = (case enc (isa args) (ds ! k) of Inr inst \<Rightarrow> inst | Inl msg \<Rightarrow> fill))
         \<and> run enc commands args =
             Inr (if outputMode args = RawBytes
                  then concat (map (\<lambda>inst. fromHex (hex inst)) insts)
                  else strToByteArray (join [NL]
                         (text_lines args (invRef refList) (ceil_log16 (length srcs * 4)) 0 srcs insts)))
         \<and> fromHex (hex fill) = [255, 255, 255, 255]
         \<and> hex fill = ''ffffffff''
         \<and> bin fill = replicate 32 (CHR ''1'')
         \<and> (\<forall>w k src. out_line (args\<lparr>showAddr := False, showInput := False\<rparr>) (invRef refList) w k src fill
               = (if outputMode args = HexString then ''ffffffff'' else replicate 32 (CHR ''1'')))"
proof -
  let ?insts = "map (\<lambda>d. case enc (isa args) d of Inr inst \<Rightarrow> inst | Inl msg \<Rightarrow> fill) ds"
  have ll: "length lineMap = length srcs" by (rule parseRef_insts(4) [OF p])
  have len': "length ds = length (zip srcs lineMap)" using len ll by simp
  have ok': "\<forall>k < length (zip srcs lineMap).
          deref (fst (zip srcs lineMap ! k)) refList (snd (zip srcs lineMap ! k)) ((0 + k) * 4)
            = Inr (ds ! k)"
    using ok ll by simp
  have e: "encode_all enc args refList 0 (zip srcs lineMap) = Inr ?insts"
    by (rule encode_all_lenient [OF ig len' ok'])
  have a: "length ?insts = length srcs" using len by simp
  have b: "\<forall>k < length srcs.
               ?insts ! k = (case enc (isa args) (ds ! k) of Inr inst \<Rightarrow> inst | Inl msg \<Rightarrow> fill)"
    using len by simp
  have c: "run enc commands args =
             Inr (if outputMode args = RawBytes
                  then concat (map (\<lambda>inst. fromHex (hex inst)) ?insts)
                  else strToByteArray (join [NL]
                         (text_lines args (invRef refList) (ceil_log16 (length srcs * 4)) 0 srcs ?insts)))"
    by (simp add: run_char [OF p] e)
  have d: "\<forall>w k src. out_line (args\<lparr>showAddr := False, showInput := False\<rparr>) (invRef refList) w k src fill
               = (if outputMode args = HexString then ''ffffffff'' else replicate 32 (CHR ''1''))"
    by (simp add: out_line_def fill_values)
  from a b c d fill_values show ?thesis by blast
qed


subsection \<open>The earlier revision\<close>

text \<open>The earlier revision gives every non-empty line a slot, and leaves the binary text
  of a substituted slot undefined.\<close>

lemma run0_loop_eq:
  "run0_loop enc args w i srcs instBytes ret =
     (case encode_all0 enc args i srcs of
        Inl e \<Rightarrow> Inl e
      | Inr slots \<Rightarrow>
          Inr (instBytes @ concat (map (\<lambda>slot. fromHex (fst slot)) slots),
               if outputMode args \<noteq> RawBytes
               then ret @ text_lines0 args w i srcs slots
               else ret))"
proof (induction srcs arbitrary: i instBytes ret)
  case Nil
  show ?case by simp
next
  case (Cons src srcs)
  show ?case
    by (simp add: Cons.IH split: sum.splits prod.splits)
qed

lemma run0_eq:
  "run0 enc commands args =
     (case encode_all0 enc args 0 (nonempty_lines commands) of
        Inl e \<Rightarrow> Inl e
      | Inr slots \<Rightarrow>
          Inr (if outputMode args = RawBytes
               then concat (map (\<lambda>slot. fromHex (fst slot)) slots)
               else strToByteArray (join [NL] (map join_elem
                      (text_lines0 args (ceil_log16 (length (nonempty_lines commands) * 4)) 0
                         (nonempty_lines commands) slots)))))"
  by (simp add: run0_def run0_loop_eq split_codes_nonempty_lines Let_def split: sum.splits)

lemma encode_all0_length:
  "encode_all0 enc args i srcs = Inr slots \<Longrightarrow> length slots = length srcs"
proof (induction srcs arbitrary: i slots)
  case Nil
  then show ?case by simp
next
  case (Cons src srcs)
  from Cons.prems show ?case
    by (auto split: sum.splits if_splits dest: Cons.IH)
qed

lemma encode_all0_nth:
  "encode_all0 enc args i srcs = Inr slots \<Longrightarrow> k < length srcs \<Longrightarrow>
     slots ! k = (case enc (isa args) (srcs ! k) of
                    Inr inst \<Rightarrow> (hex inst, Some (bin inst))
                  | Inl msg \<Rightarrow> (''ffffffff'', None))"
proof (induction srcs arbitrary: i slots k)
  case Nil
  then show ?case by simp
next
  case (Cons src srcs)
  from Cons.prems(1) obtain slot rest where
    s: "(case enc (isa args) src of
              Inr inst \<Rightarrow> Inr (hex inst, Some (bin inst))
            | Inl msg \<Rightarrow>
                if ignoreIllegal args then Inr (''ffffffff'', None)
                else Inl (IllegalInstruction (i + 1) msg)) = Inr slot" and
    r: "encode_all0 enc args (i + 1) srcs = Inr rest" and
    slots: "slots = slot # rest"
    by (auto split: sum.splits)
  show ?case
  proof (cases k)
    case 0
    from s have "slot = (case enc (isa args) src of
                    Inr inst \<Rightarrow> (hex inst, Some (bin inst))
                  | Inl msg \<Rightarrow> (''ffffffff'', None))"
      by (auto split: sum.splits if_splits)
    then show ?thesis by (simp add: 0 slots)
  next
    case (Suc j)
    with Cons.prems(2) have "j < length srcs" by simp
    from Cons.IH [OF r this] show ?thesis by (simp add: Suc slots)
  qed
qed

lemma text_lines0_length:
  "length srcs = length slots \<Longrightarrow> length (text_lines0 args w i srcs slots) = length srcs"
  by (induction args w i srcs slots rule: text_lines0.induct) auto

lemma text_lines0_nth:
  "length srcs = length slots \<Longrightarrow> k < length srcs \<Longrightarrow>
     text_lines0 args w i srcs slots ! k
       = out_line0 args w (i + k) (srcs ! k)
           (if outputMode args = HexString then Some (fst (slots ! k)) else snd (slots ! k))"
proof (induction args w i srcs slots arbitrary: k rule: text_lines0.induct)
  case (1 args w i src srcs slot slots)
  then show ?case by (cases k) auto
qed auto

lemma out_line0_addr:
  assumes "showAddr args"
  shows "\<exists>rest. out_line0 args w i src instStr = Some (''0x'' @ addr_text w i @ '': '' @ rest)"
  using assms by (simp add: out_line0_def)

lemma run0_depends_on_nonempty_lines:
  "nonempty_lines commands' = nonempty_lines commands \<Longrightarrow>
     run0 enc commands' args = run0 enc commands args"
  by (simp add: run0_def split_codes_nonempty_lines)

lemma run0_newlines: "set commands \<subseteq> {NL} \<Longrightarrow> run0 enc commands args = Inr []"
  by (simp add: run0_eq nonempty_lines_newlines strToByteArray_def)

lemma run_newlines: "set commands \<subseteq> {NL} \<Longrightarrow> run enc commands args = Inr []"
proof -
  assume "set commands \<subseteq> {NL}"
  then have "nonempty_lines commands = []" by (rule nonempty_lines_newlines)
  then have "parseRef commands = Inr ([], [], [])"
    by (simp add: parseRef_def split_codes_nonempty_lines)
  then show "run enc commands args = Inr []"
    by (simp add: run_def strToByteArray_def)
qed

lemma run0_slots:
  "run0 enc commands args =
     (case run0_loop enc args (ceil_log16 (length (nonempty_lines commands) * 4)) 0
             (nonempty_lines commands) [] [] of
        Inl e \<Rightarrow> Inl e
      | Inr (instBytes, ret) \<Rightarrow>
          if outputMode args = RawBytes then Inr instBytes
          else Inr (strToByteArray (join [NL] (map join_elem ret))))"
  by (simp add: run0_def split_codes_nonempty_lines Let_def)

lemma slot0_bytes:
  assumes wf: "wf_encoder enc"
    and e: "encode_all0 enc args 0 srcs = Inr slots"
    and k: "k < length srcs"
  shows "length (fromHex (fst (slots ! k))) = 4"
    and "take 4 (drop (4 * k) (concat (map (\<lambda>slot. fromHex (fst slot)) slots))) = fromHex (fst (slots ! k))"
proof -
  have len: "length slots = length srcs" by (rule encode_all0_length [OF e])
  have each: "length (fromHex (fst (slots ! j))) = 4" if "j < length srcs" for j
  proof (cases "enc (isa args) (srcs ! j)")
    case (Inl msg)
    with encode_all0_nth [OF e that] have "fst (slots ! j) = ''ffffffff''" by simp
    then show ?thesis using fill_values(1) by (simp add: fill_def)
  next
    case (Inr inst)
    with encode_all0_nth [OF e that] have f: "fst (slots ! j) = hex inst" by simp
    from wf Inr have "wf_instruction inst" by (auto simp: wf_encoder_def)
    then show ?thesis by (simp add: f wf_instruction_def fromHex_length)
  qed
  show "length (fromHex (fst (slots ! k))) = 4" by (rule each [OF k])
  have four: "\<forall>x \<in> set (map (\<lambda>slot. fromHex (fst slot)) slots). length x = 4"
  proof
    fix x assume "x \<in> set (map (\<lambda>slot. fromHex (fst slot)) slots)"
    then obtain j where j: "j < length slots" and x: "x = fromHex (fst (slots ! j))"
      by (auto simp: in_set_conv_nth)
    from j len have "j < length srcs" by simp
    from each [OF this] x show "length x = 4" by simp
  qed
  from k len have k': "k < length (map (\<lambda>slot. fromHex (fst slot)) slots)" by simp
  from concat_chunk [OF four k'] k len
  show "take 4 (drop (4 * k) (concat (map (\<lambda>slot. fromHex (fst slot)) slots))) = fromHex (fst (slots ! k))"
    by simp
qed

subsection \<open>The first line that stops the line-classification pass\<close>

lemma upt_Suc_ex: "(\<exists>j < Suc k. P j) \<longleftrightarrow> P 0 \<or> (\<exists>j < k. P (Suc j))"
  by (auto simp: less_Suc_eq_0_disj)

lemma repeats_iff:
  "repeats D codes k \<longleftrightarrow>
     str_includes (codes ! k) '':'' \<and>
     (label_of (codes ! k) \<in> set D \<or> label_of (codes ! k) \<in> set object_prototype_keys \<or>
      (\<exists>j < k. str_includes (codes ! j) '':'' \<and> label_of (codes ! j) = label_of (codes ! k)))"
  by (auto simp: repeats_def list_ex_iff)

lemma repeats_plain_head:
  "\<not> str_includes code '':'' \<Longrightarrow> repeats D (code # codes) (Suc k) \<longleftrightarrow> repeats D codes k"
  by (simp add: repeats_iff upt_Suc_ex)

lemma repeats_label_head:
  "str_includes code '':'' \<Longrightarrow>
     repeats D (code # codes) (Suc k) \<longleftrightarrow> repeats (label_of code # D) codes k"
  by (auto simp: repeats_iff upt_Suc_ex)

lemma offends_plain_head:
  "\<not> str_includes code '':'' \<Longrightarrow> offends D (code # codes) (Suc k) \<longleftrightarrow> offends D codes k"
  by (simp add: offends_def repeats_plain_head)

lemma offends_label_head:
  "str_includes code '':'' \<Longrightarrow>
     offends D (code # codes) (Suc k) \<longleftrightarrow> offends (label_of code # D) codes k"
  by (simp add: offends_def repeats_label_head)

lemma repeats_head:
  "repeats D (code # codes) 0 \<longleftrightarrow>
     str_includes code '':'' \<and> (label_of code \<in> set D \<or> label_of code \<in> set object_prototype_keys)"
  by (simp add: repeats_iff)

lemma get_ref_undefined_iff:
  "get_ref refList name = Undefined \<longleftrightarrow>
     name \<notin> fst ` set refList \<and> name \<notin> set object_prototype_keys"
proof (cases "map_of refList name")
  case None
  then have "name \<notin> fst ` set refList" by (simp add: map_of_eq_None_iff)
  with None show ?thesis by (simp add: get_ref_def)
next
  case (Some v)
  then have "(name, v) \<in> set refList" by (rule map_of_SomeD)
  then have "name \<in> fst ` set refList" by force
  with Some show ?thesis by (simp add: get_ref_def)
qed

lemma parseRef_loop_first_offender:
  assumes "fst ` set refList = set D"
    and "m < length codes"
    and "offends D codes m"
    and "\<forall>j < m. \<not> offends D codes j"
  shows "parseRef_loop i codes refList insts lineMap
           = Inl (if repeats D codes m
                  then DuplicateLabel (i + m + 1) (label_of (codes ! m))
                  else InvalidLabelName (i + m + 1) (label_of (codes ! m)))"
  using assms
proof (induction codes arbitrary: i m refList insts lineMap D)
  case Nil
  then show ?case by simp
next
  case (Cons code codes)
  show ?case
  proof (cases m)
    case 0
    from Cons.prems(3) 0 have inc: "str_includes code '':''"
      by (auto simp: offends_def repeats_head)
    from label_line_split [OF inc] obtain q rest where
      sp: "split_char (CHR '':'') (trim code) = label_of code # q # rest" by blast
    show ?thesis
    proof (cases "repeats D (code # codes) 0")
      case True
      then have "get_ref refList (label_of code) \<noteq> Undefined"
        using Cons.prems(1) by (simp add: repeats_head get_ref_undefined_iff)
      then show ?thesis using 0 True inc sp by simp
    next
      case False
      then have u: "get_ref refList (label_of code) = Undefined"
        using Cons.prems(1) inc by (simp add: repeats_head get_ref_undefined_iff)
      from False Cons.prems(3) 0 have "starts_with_digit (label_of code)"
        by (simp add: offends_def)
      then show ?thesis using 0 False inc sp u by simp
    qed
  next
    case (Suc m')
    from Cons.prems(2) Suc have m': "m' < length codes" by simp
    from Cons.prems(4) Suc have no0: "\<not> offends D (code # codes) 0" by simp
    show ?thesis
    proof (cases "str_includes code '':''")
      case False
      have o: "offends D codes m'"
        using Cons.prems(3) Suc False by (simp add: offends_plain_head)
      have l: "\<forall>j < m'. \<not> offends D codes j"
      proof (intro allI impI)
        fix j assume "j < m'"
        then have "Suc j < m" using Suc by simp
        with Cons.prems(4) have "\<not> offends D (code # codes) (Suc j)" by blast
        then show "\<not> offends D codes j" using False by (simp add: offends_plain_head)
      qed
      have r: "repeats D (code # codes) m = repeats D codes m'"
        using Suc False by (simp add: repeats_plain_head)
      from Cons.IH [OF Cons.prems(1) m' o l, of "i + 1" "insts @ [trim code]" "lineMap @ [i + 1]"]
      show ?thesis using False Suc r by simp
    next
      case True
      from label_line_split [OF True] obtain q rest where
        sp: "split_char (CHR '':'') (trim code) = label_of code # q # rest" by blast
      from no0 True have nd: "label_of code \<notin> set D" and nk: "label_of code \<notin> set object_prototype_keys"
        and ndig: "\<not> starts_with_digit (label_of code)"
        by (auto simp: offends_def repeats_head)
      from nd nk Cons.prems(1) have u: "get_ref refList (label_of code) = Undefined"
        by (simp add: get_ref_undefined_iff)
      let ?D = "label_of code # D"
      let ?R = "refList @ [(label_of code, length insts * 4)]"
      have inv: "fst ` set ?R = set ?D" using Cons.prems(1) by auto
      have o: "offends ?D codes m'"
        using Cons.prems(3) Suc True by (simp add: offends_label_head)
      have l: "\<forall>j < m'. \<not> offends ?D codes j"
      proof (intro allI impI)
        fix j assume "j < m'"
        then have "Suc j < m" using Suc by simp
        with Cons.prems(4) have "\<not> offends D (code # codes) (Suc j)" by blast
        then show "\<not> offends ?D codes j" using True by (simp add: offends_label_head)
      qed
      have r: "repeats D (code # codes) m = repeats ?D codes m'"
        using Suc True by (simp add: repeats_label_head)
      have step: "parseRef_loop i (code # codes) refList insts lineMap
                    = (if \<not> endsWith (trim code) '':''
                       then parseRef_loop (i + 1) codes ?R (insts @ [trim q]) (lineMap @ [i + 1])
                       else parseRef_loop (i + 1) codes ?R insts lineMap)"
        using True sp u ndig by (simp add: Let_def)
      show ?thesis
      proof (cases "endsWith (trim code) '':''")
        case e: True
        from Cons.IH [OF inv m' o l, of "i + 1" insts lineMap]
        show ?thesis using step e Suc r by simp
      next
        case e: False
        from Cons.IH [OF inv m' o l, of "i + 1" "insts @ [trim q]" "lineMap @ [i + 1]"]
        show ?thesis using step e Suc r by simp
      qed
    qed
  qed
qed

lemma first_offender_exists:
  assumes "offends D codes b"
  obtains m where "m \<le> b" "offends D codes m" "\<forall>j < m. \<not> offends D codes j"
proof -
  let ?m = "LEAST m. offends D codes m"
  have 1: "offends D codes ?m" using assms by (rule LeastI)
  have 2: "?m \<le> b" using assms by (rule Least_le)
  have 3: "\<forall>j < ?m. \<not> offends D codes j" using not_less_Least by blast
  from 1 2 3 show ?thesis using that by blast
qed

lemma first_offender_examples:
  "run enc_demo prog_shadow raw_args = Inl (DuplicateLabel 2 ''A'')"
  "run enc_demo prog_inherited raw_args = Inl (DuplicateLabel 1 ''constructor'')"
  by code_simp+

subsection \<open>The label-aware revision: lines, fill and slots\<close>

text \<open>What the label-aware revision does where the earlier one differs: every line of the
  text output is non-empty, the slot of a rejected line holds both fields of the fill
  instruction, and a bare label definition takes no slot.\<close>

lemma run_text_lines:
  assumes mode: "outputMode args \<noteq> RawBytes"
    and wf: "wf_encoder enc"
    and p: "parseRef commands = Inr (srcs, refList, lineMap)"
    and r: "run enc commands args = Inr out"
  shows "\<exists>insts lines.
           encode_all enc args refList 0 (zip srcs lineMap) = Inr insts
         \<and> length lines = length srcs
         \<and> (\<forall>k < length srcs.
               lines ! k = out_line args (invRef refList) (ceil_log16 (length srcs * 4)) k
                             (srcs ! k) (insts ! k))
         \<and> (\<forall>l \<in> set lines. l \<noteq> [] \<and> NL \<notin> set l)
         \<and> out = strToByteArray (join [NL] lines)
         \<and> (lines \<noteq> [] \<longrightarrow>
               split_char NL (join [NL] lines) = lines \<and> last (join [NL] lines) \<noteq> NL)"
proof -
  from run_success [OF p r] obtain insts where
    e: "encode_all enc args refList 0 (zip srcs lineMap) = Inr insts" and
    len: "length insts = length srcs" and
    out: "out = (if outputMode args = RawBytes
               then concat (map (\<lambda>inst. fromHex (hex inst)) insts)
               else strToByteArray (join [NL]
                      (text_lines args (invRef refList) (ceil_log16 (length srcs * 4)) 0 srcs insts)))"
    by blast
  let ?w = "ceil_log16 (length srcs * 4)"
  let ?lines = "text_lines args (invRef refList) ?w 0 srcs insts"
  have len': "length srcs = length insts" using len by simp
  have l1: "length ?lines = length srcs" by (rule text_lines_length [OF len'])
  have l2: "\<forall>k < length srcs. ?lines ! k = out_line args (invRef refList) ?w k (srcs ! k) (insts ! k)"
    using text_lines_nth [OF len', of _ args "invRef refList" ?w 0] by simp
  have l3: "\<forall>l \<in> set ?lines. l \<noteq> [] \<and> NL \<notin> set l"
  proof
    fix l assume "l \<in> set ?lines"
    from text_lines_set [OF len' this] obtain k where k: "k < length srcs"
      and l: "l = out_line args (invRef refList) ?w (0 + k) (srcs ! k) (insts ! k)" by blast
    have wfi: "wf_instruction (insts ! k)"
      using encode_all_wf [OF wf e] k len by simp
    have src: "NL \<notin> set (srcs ! k)"
      using parseRef_srcs_no_NL [OF p] k by simp
    have nl: "NL \<notin> set (out_line args (invRef refList) ?w (0 + k) (srcs ! k) (insts ! k))"
    proof (rule out_line_no_NL [OF wfi src])
      fix names name
      assume "invRef refList ((0 + k) * 4) = Some names" and "name \<in> set names"
      with invRef_names [of refList "(0 + k) * 4" names] have "name \<in> fst ` set refList"
        by blast
      then show "NL \<notin> set name" by (rule parseRef_names_no_NL [OF p])
    qed
    show "l \<noteq> [] \<and> NL \<notin> set l"
      unfolding l using out_line_nonempty [OF wfi] nl by blast
  qed
  have l4: "out = strToByteArray (join [NL] ?lines)" using out mode by simp
  have l5: "?lines \<noteq> [] \<longrightarrow>
              split_char NL (join [NL] ?lines) = ?lines \<and> last (join [NL] ?lines) \<noteq> NL"
  proof
    assume ne: "?lines \<noteq> []"
    have a: "split_char NL (join [NL] ?lines) = ?lines"
      using split_char_join [OF _ ne] l3 by blast
    have "last (join [NL] ?lines) = last (last ?lines)"
      using last_join [OF _ ne] l3 by blast
    moreover have "last ?lines \<in> set ?lines" using ne by simp
    with l3 have "last ?lines \<noteq> [] \<and> NL \<notin> set (last ?lines)" by blast
    then have "last (last ?lines) \<noteq> NL" using last_in_set by metis
    ultimately show "split_char NL (join [NL] ?lines) = ?lines \<and> last (join [NL] ?lines) \<noteq> NL"
      using a by simp
  qed
  from e l1 l2 l3 l4 l5 show ?thesis by blast
qed

lemma run_fill:
  assumes ig: "ignoreIllegal args"
  shows "run enc commands args
           = run (\<lambda>w s. case enc w s of Inl msg \<Rightarrow> Inr fill | Inr inst \<Rightarrow> Inr inst) commands args
       \<and> (\<forall>n msg. run enc commands args \<noteq> Inl (IllegalInstruction n msg))
       \<and> (\<forall>srcs refList lineMap ds.
             parseRef commands = Inr (srcs, refList, lineMap) \<longrightarrow>
             length ds = length srcs \<longrightarrow>
             (\<forall>k < length srcs. deref (srcs ! k) refList (lineMap ! k) (k * 4) = Inr (ds ! k)) \<longrightarrow>
             (\<exists>insts.
                 length insts = length srcs
               \<and> (\<forall>k < length srcs.
                     insts ! k = (case enc (isa args) (ds ! k) of Inr inst \<Rightarrow> inst | Inl msg \<Rightarrow> fill))
               \<and> run enc commands args =
                   Inr (if outputMode args = RawBytes
                        then concat (map (\<lambda>inst. fromHex (hex inst)) insts)
                        else strToByteArray (join [NL]
                               (text_lines args (invRef refList) (ceil_log16 (length srcs * 4)) 0
                                  srcs insts)))))
       \<and> fromHex (hex fill) = [255, 255, 255, 255]
       \<and> hex fill = ''ffffffff''
       \<and> bin fill = replicate 32 (CHR ''1'')
       \<and> (\<forall>ivl w k src. out_line (args\<lparr>showAddr := False, showInput := False\<rparr>) ivl w k src fill
             = (if outputMode args = HexString then ''ffffffff'' else replicate 32 (CHR ''1'')))"
proof -
  have a: "run enc commands args
           = run (\<lambda>w s. case enc w s of Inl msg \<Rightarrow> Inr fill | Inr inst \<Rightarrow> Inr inst) commands args"
    by (rule run_lenient [OF ig])
  have b: "\<forall>n msg. run enc commands args \<noteq> Inl (IllegalInstruction n msg)"
    using run_lenient_no_illegal [OF ig] by blast
  have c: "\<forall>srcs refList lineMap ds.
             parseRef commands = Inr (srcs, refList, lineMap) \<longrightarrow>
             length ds = length srcs \<longrightarrow>
             (\<forall>k < length srcs. deref (srcs ! k) refList (lineMap ! k) (k * 4) = Inr (ds ! k)) \<longrightarrow>
             (\<exists>insts.
                 length insts = length srcs
               \<and> (\<forall>k < length srcs.
                     insts ! k = (case enc (isa args) (ds ! k) of Inr inst \<Rightarrow> inst | Inl msg \<Rightarrow> fill))
               \<and> run enc commands args =
                   Inr (if outputMode args = RawBytes
                        then concat (map (\<lambda>inst. fromHex (hex inst)) insts)
                        else strToByteArray (join [NL]
                               (text_lines args (invRef refList) (ceil_log16 (length srcs * 4)) 0
                                  srcs insts))))"
  proof (intro allI impI)
    fix srcs refList lineMap ds
    assume p: "parseRef commands = Inr (srcs, refList, lineMap)"
      and len: "length ds = length srcs"
      and ok: "\<forall>k < length srcs. deref (srcs ! k) refList (lineMap ! k) (k * 4) = Inr (ds ! k)"
    from ignore_illegal_slots [OF ig p len ok, of enc]
    show "\<exists>insts.
                 length insts = length srcs
               \<and> (\<forall>k < length srcs.
                     insts ! k = (case enc (isa args) (ds ! k) of Inr inst \<Rightarrow> inst | Inl msg \<Rightarrow> fill))
               \<and> run enc commands args =
                   Inr (if outputMode args = RawBytes
                        then concat (map (\<lambda>inst. fromHex (hex inst)) insts)
                        else strToByteArray (join [NL]
                               (text_lines args (invRef refList) (ceil_log16 (length srcs * 4)) 0
                                  srcs insts)))"
      by blast
  qed
  have d: "\<forall>ivl w k src. out_line (args\<lparr>showAddr := False, showInput := False\<rparr>) ivl w k src fill
             = (if outputMode args = HexString then ''ffffffff'' else replicate 32 (CHR ''1''))"
    by (simp add: out_line_def fill_values)
  from a b c d fill_values show ?thesis by (intro conjI)
qed

lemma run_blank_lines:
  "split_codes commands = nonempty_lines commands
   \<and> (nonempty_lines commands' = nonempty_lines commands \<longrightarrow>
        run enc commands' args = run enc commands args)
   \<and> (\<forall>srcs refList lineMap.
        parseRef commands = Inr (srcs, refList, lineMap) \<longrightarrow>
          srcs = map inst_text (filter (\<lambda>c. \<not> is_label_only c) (nonempty_lines commands))
        \<and> (\<forall>insts k. encode_all enc args refList 0 (zip srcs lineMap) = Inr insts \<longrightarrow> k < length srcs \<longrightarrow>
              (\<exists>d. deref (srcs ! k) refList (lineMap ! k) (4 * k) = Inr d
                  \<and> new_Instruction enc args (lineMap ! k) d = Inr (insts ! k))))
   \<and> ((\<forall>l \<in> set (nonempty_lines commands). \<not> str_includes l '':'') \<longrightarrow>
        parseRef commands
          = Inr (map trim (nonempty_lines commands), [], [1..<1 + length (nonempty_lines commands)]))
   \<and> (set commands \<subseteq> {NL} \<longrightarrow> run enc commands args = Inr [])"
proof -
  have a: "split_codes commands = nonempty_lines commands"
    by (rule split_codes_nonempty_lines)
  have b: "nonempty_lines commands' = nonempty_lines commands \<longrightarrow>
        run enc commands' args = run enc commands args"
    using run_depends_on_nonempty_lines by blast
  have c: "\<forall>srcs refList lineMap.
        parseRef commands = Inr (srcs, refList, lineMap) \<longrightarrow>
          srcs = map inst_text (filter (\<lambda>c. \<not> is_label_only c) (nonempty_lines commands))
        \<and> (\<forall>insts k. encode_all enc args refList 0 (zip srcs lineMap) = Inr insts \<longrightarrow> k < length srcs \<longrightarrow>
              (\<exists>d. deref (srcs ! k) refList (lineMap ! k) (4 * k) = Inr d
                  \<and> new_Instruction enc args (lineMap ! k) d = Inr (insts ! k)))"
  proof (intro allI impI conjI)
    fix srcs refList lineMap
    assume p: "parseRef commands = Inr (srcs, refList, lineMap)"
    show "srcs = map inst_text (filter (\<lambda>c. \<not> is_label_only c) (nonempty_lines commands))"
      using parseRef_insts(1) [OF p] by (simp add: inst_lines_fst_map)
    fix insts k
    assume e: "encode_all enc args refList 0 (zip srcs lineMap) = Inr insts" and k: "k < length srcs"
    have ll: "length lineMap = length srcs" by (rule parseRef_insts(4) [OF p])
    with k have k': "k < length (zip srcs lineMap)" by simp
    from encode_all_nth [OF e k'] k ll
    show "\<exists>d. deref (srcs ! k) refList (lineMap ! k) (4 * k) = Inr d
                  \<and> new_Instruction enc args (lineMap ! k) d = Inr (insts ! k)"
      by (simp add: mult.commute)
  qed
  have d: "(\<forall>l \<in> set (nonempty_lines commands). \<not> str_includes l '':'') \<longrightarrow>
        parseRef commands
          = Inr (map trim (nonempty_lines commands), [], [1..<1 + length (nonempty_lines commands)])"
    using parseRef_loop_plain [of "nonempty_lines commands" 0 "[]" "[]" "[]"]
    by (simp add: parseRef_def split_codes_nonempty_lines)
  have e: "set commands \<subseteq> {NL} \<longrightarrow> run enc commands args = Inr []"
  proof
    assume "set commands \<subseteq> {NL}"
    then have "nonempty_lines commands = []" by (rule nonempty_lines_newlines)
    then have "parseRef commands = Inr ([], [], [])"
      by (simp add: parseRef_def split_codes_nonempty_lines)
    then show "run enc commands args = Inr []"
      by (simp add: run_def strToByteArray_def)
  qed
  from a b c d e show ?thesis by (intro conjI)
qed

lemma label_line_takes_no_slot:
  "nonempty_lines prog_label = [''start:'', ''addi x1, x1, 1'']
   \<and> parseRef prog_label = Inr ([''addi x1, x1, 1''], [(''start'', 0)], [2])
   \<and> run enc_demo prog_label addr_args = Inr (strToByteArray ''0x0: 00108093'')"
  by code_simp
section \<open>The claims\<close>

text \<open>
  Claim C7. For every byte array whose length is not a multiple of 4, the decoder fails
  with \<open>MisalignedInput\<close>; it does so whatever the codec is, that is without decoding any
  word of the input.
\<close>

theorem decode_misaligned:
  assumes "length insts mod 4 \<noteq> 0"
  shows "decode_run dec insts args = Inl MisalignedInput"
  using assms by (simp add: decode_run_def)

theorem decode_misaligned_witness:
  "length [0x13, 0, 0 :: nat] mod 4 \<noteq> 0
     \<and> decode_run (\<lambda>w a h s. Inr ''addi x0, x0, 0'') [0x13, 0, 0] dec_plain = Inl MisalignedInput"
  using decode_misaligned [of "[0x13, 0, 0]" "\<lambda>w a h s. Inr ''addi x0, x0, 0''" dec_plain]
  by simp

text \<open>
  Claim C8. In the mode Raw bytes the result is the concatenation, in line order, of the
  bytes of every instruction (four for each, when the codec renders a word as eight hex
  digits), and it is the same for every setting of the flags show-address and
  show-source-text; this includes the case where the assembly fails.
\<close>

theorem raw_bytes_output:
  assumes "outputMode args = RawBytes"
  shows "run enc commands (args\<lparr>showAddr := a, showInput := b\<rparr>) = run enc commands args
    \<and> run enc commands args =
          (case parseRef commands of
             Inl e \<Rightarrow> Inl e
           | Inr (srcs, refList, lineMap) \<Rightarrow>
               (case encode_all enc args refList 0 (zip srcs lineMap) of
                  Inl e \<Rightarrow> Inl e
                | Inr insts \<Rightarrow> Inr (concat (map (\<lambda>inst. fromHex (hex inst)) insts))))
    \<and> (wf_encoder enc \<longrightarrow>
          (\<forall>srcs refList lineMap insts.
              parseRef commands = Inr (srcs, refList, lineMap) \<longrightarrow>
              encode_all enc args refList 0 (zip srcs lineMap) = Inr insts \<longrightarrow>
              (\<forall>k < length insts.
                 length (fromHex (hex (insts ! k))) = 4 \<and>
                 take 4 (drop (4 * k) (concat (map (\<lambda>inst. fromHex (hex inst)) insts)))
                   = fromHex (hex (insts ! k)))))"
proof -
  have flags: "run enc commands (args\<lparr>showAddr := a, showInput := b\<rparr>) = run enc commands args"
    using assms by (simp add: run_eq encode_all_flags split: sum.splits prod.splits)
  have bytes: "run enc commands args =
          (case parseRef commands of
             Inl e \<Rightarrow> Inl e
           | Inr (srcs, refList, lineMap) \<Rightarrow>
               (case encode_all enc args refList 0 (zip srcs lineMap) of
                  Inl e \<Rightarrow> Inl e
                | Inr insts \<Rightarrow> Inr (concat (map (\<lambda>inst. fromHex (hex inst)) insts))))"
    using assms by (simp add: run_eq split: sum.splits prod.splits)
  have slots: "wf_encoder enc \<longrightarrow>
          (\<forall>srcs refList lineMap insts.
              parseRef commands = Inr (srcs, refList, lineMap) \<longrightarrow>
              encode_all enc args refList 0 (zip srcs lineMap) = Inr insts \<longrightarrow>
              (\<forall>k < length insts.
                 length (fromHex (hex (insts ! k))) = 4 \<and>
                 take 4 (drop (4 * k) (concat (map (\<lambda>inst. fromHex (hex inst)) insts)))
                   = fromHex (hex (insts ! k))))"
  proof (intro impI allI)
    fix srcs refList lineMap insts k
    assume wf: "wf_encoder enc"
      and e: "encode_all enc args refList 0 (zip srcs lineMap) = Inr insts"
      and k: "k < length insts"
    have all: "\<forall>inst \<in> set insts. wf_instruction inst"
      by (rule encode_all_wf [OF wf e])
    have four: "\<forall>x \<in> set (map (\<lambda>inst. fromHex (hex inst)) insts). length x = 4"
      using all by (auto simp: wf_instruction_def fromHex_length)
    from k have k': "k < length (map (\<lambda>inst. fromHex (hex inst)) insts)" by simp
    show "length (fromHex (hex (insts ! k))) = 4
        \<and> take 4 (drop (4 * k) (concat (map (\<lambda>inst. fromHex (hex inst)) insts)))
            = fromHex (hex (insts ! k))"
      using concat_chunk [OF four k'] four k by simp
  qed
  from flags bytes slots show ?thesis by (intro conjI)
qed

theorem raw_bytes_output_witness:
  "outputMode raw_args = RawBytes \<and> wf_encoder enc_demo
     \<and> run enc_demo prog_loop (raw_args\<lparr>showAddr := True, showInput := True\<rparr>)
         = run enc_demo prog_loop raw_args
     \<and> run enc_demo prog_loop raw_args = Inr [0, 16, 128, 147, 254, 32, 142, 227]"
proof -
  have m: "outputMode raw_args = RawBytes" by (simp add: raw_args_def)
  have w: "wf_encoder enc_demo"
    by (auto simp: wf_encoder_def enc_demo_def wf_instruction_def is_hex_string_def
          is_bin_string_def digit_val_def split: if_splits)
  have v: "run enc_demo prog_loop raw_args = Inr [0, 16, 128, 147, 254, 32, 142, 227]"
    by code_simp
  from raw_bytes_output [OF m, of enc_demo prog_loop True True] m w v show ?thesis by simp
qed

text \<open>
  Claim C10. In the textual modes the result should be one line for each instruction, the
  lines joined by single newlines, with no newline at the end. The revision without labels
  departs from this when ignore-illegal is set and the mode is Binary string: the object it
  puts in the slot of a rejected line has no \<^verbatim>\<open>bin\<close>, so the element pushed on \<^verbatim>\<open>ret\<close> is
  \<^verbatim>\<open>undefined\<close>, which \<^verbatim>\<open>join\<close> renders as the empty string. For the two instructions of
  \<^verbatim>\<open>prog_tail\<close> the text is the first line followed by a newline, and for the one
  instruction of \<^verbatim>\<open>prog_bogus\<close> it is empty. The label-aware revision gives two lines for
  the first program and one for the second.
\<close>

theorem text_output_empty_line:
  "ignoreIllegal lenient_args \<and> outputMode lenient_args = BinaryString
   \<and> \<not> showAddr lenient_args \<and> \<not> showInput lenient_args
   \<and> nonempty_lines prog_tail = [''addi x1, x1, 1'', ''bogus x1'']
   \<and> run0 enc_demo prog_tail lenient_args
        = Inr (strToByteArray (''00000000000100001000000010010011'' @ [NL]))
   \<and> nonempty_lines prog_bogus = [''bogus x1'']
   \<and> run0 enc_demo prog_bogus lenient_args = Inr (strToByteArray [])
   \<and> strToByteArray [] = []
   \<and> run enc_demo prog_tail lenient_args
        = Inr (strToByteArray (''00000000000100001000000010010011'' @ [NL]
                 @ ''11111111111111111111111111111111''))
   \<and> run enc_demo prog_bogus lenient_args
        = Inr (strToByteArray ''11111111111111111111111111111111'')"
  by code_simp

text \<open>
  Claim C4. In a textual mode with show-address set, the line of instruction \<open>k\<close> starts
  with \<^verbatim>\<open>0x\<close>, the address \<open>4 * k\<close> in hexadecimal, padded with zeros to exactly
  \<open>\<lceil>log\<^sub>1\<^sub>6 (4 * n)\<rceil>\<close> digits, where \<open>n\<close> is the number of instructions, and a colon.
  (The width is computed here in exact arithmetic.)
\<close>

theorem address_column:
  assumes addr: "showAddr args"
    and mode: "outputMode args \<noteq> RawBytes"
    and p: "parseRef commands = Inr (srcs, refList, lineMap)"
    and r: "run enc commands args = Inr out"
  shows "\<exists>lines w.
           out = strToByteArray (join [NL] lines)
         \<and> length lines = length srcs
         \<and> w = ceil_log16 (length srcs * 4)
         \<and> (0 < length srcs \<longrightarrow> int w = \<lceil>log 16 (real (4 * length srcs))\<rceil>)
         \<and> (\<forall>k < length srcs.
               (\<exists>rest. lines ! k = ''0x'' @ addr_text w k @ '': '' @ rest)
             \<and> length (addr_text w k) = w
             \<and> is_hex_string (addr_text w k)
             \<and> hex_value (addr_text w k) = 4 * k
             \<and> addr_text w k
                 = replicate (w - length (toString16 (4 * k))) (CHR ''0'') @ toString16 (4 * k))"
proof -
  from run_success [OF p r] obtain insts where
    len: "length insts = length srcs" and
    out: "out = (if outputMode args = RawBytes
               then concat (map (\<lambda>inst. fromHex (hex inst)) insts)
               else strToByteArray (join [NL]
                      (text_lines args (invRef refList) (ceil_log16 (length srcs * 4)) 0 srcs insts)))"
    by blast
  let ?w = "ceil_log16 (length srcs * 4)"
  let ?lines = "text_lines args (invRef refList) ?w 0 srcs insts"
  have len': "length srcs = length insts" using len by simp
  have l1: "out = strToByteArray (join [NL] ?lines)" using out mode by simp
  have l2: "length ?lines = length srcs" by (rule text_lines_length [OF len'])
  have l3: "0 < length srcs \<longrightarrow> int ?w = \<lceil>log 16 (real (4 * length srcs))\<rceil>"
  proof
    assume "0 < length srcs"
    then have "0 < length srcs * 4" by simp
    from ceil_log16_real [OF this] show "int ?w = \<lceil>log 16 (real (4 * length srcs))\<rceil>"
      by (simp add: mult.commute)
  qed
  have l4: "\<forall>k < length srcs.
               (\<exists>rest. ?lines ! k = ''0x'' @ addr_text ?w k @ '': '' @ rest)
             \<and> length (addr_text ?w k) = ?w
             \<and> is_hex_string (addr_text ?w k)
             \<and> hex_value (addr_text ?w k) = 4 * k
             \<and> addr_text ?w k
                 = replicate (?w - length (toString16 (4 * k))) (CHR ''0'') @ toString16 (4 * k)"
  proof (intro allI impI)
    fix k assume k: "k < length srcs"
    have "?lines ! k = out_line args (invRef refList) ?w k (srcs ! k) (insts ! k)"
      using text_lines_nth [OF len' k, of args "invRef refList" ?w 0] by simp
    with out_line_addr [OF addr, of "invRef refList" ?w k "srcs ! k" "insts ! k"]
    have a: "\<exists>rest. ?lines ! k = ''0x'' @ addr_text ?w k @ '': '' @ rest" by simp
    from addr_text_props [OF k] a
    show "(\<exists>rest. ?lines ! k = ''0x'' @ addr_text ?w k @ '': '' @ rest)
             \<and> length (addr_text ?w k) = ?w
             \<and> is_hex_string (addr_text ?w k)
             \<and> hex_value (addr_text ?w k) = 4 * k
             \<and> addr_text ?w k
                 = replicate (?w - length (toString16 (4 * k))) (CHR ''0'') @ toString16 (4 * k)"
      by (simp add: mult.commute)
  qed
  from l1 l2 l3 l4 show ?thesis by blast
qed

theorem address_column_witness:
  "showAddr addr_args \<and> outputMode addr_args \<noteq> RawBytes
   \<and> parseRef prog_five = Inr (srcs_five, [], [1, 2, 3, 4, 5])
   \<and> run enc_demo prog_five addr_args = Inr out_five
   \<and> (\<exists>lines w.
           out_five = strToByteArray (join [NL] lines)
         \<and> length lines = length srcs_five
         \<and> w = ceil_log16 (length srcs_five * 4)
         \<and> (0 < length srcs_five \<longrightarrow> int w = \<lceil>log 16 (real (4 * length srcs_five))\<rceil>)
         \<and> (\<forall>k < length srcs_five.
               (\<exists>rest. lines ! k = ''0x'' @ addr_text w k @ '': '' @ rest)
             \<and> length (addr_text w k) = w
             \<and> is_hex_string (addr_text w k)
             \<and> hex_value (addr_text w k) = 4 * k
             \<and> addr_text w k
                 = replicate (w - length (toString16 (4 * k))) (CHR ''0'') @ toString16 (4 * k)))"
proof -
  have a: "showAddr addr_args" by (simp add: addr_args_def)
  have m: "outputMode addr_args \<noteq> RawBytes" by (simp add: addr_args_def)
  have p: "parseRef prog_five = Inr (srcs_five, [], [1, 2, 3, 4, 5])" by code_simp
  have r: "run enc_demo prog_five addr_args = Inr out_five" by code_simp
  from address_column [OF a m p r] a m p r show ?thesis by (intro conjI)
qed

text \<open>
  Claim C2. With ignore-illegal set, the slot of a line that the codec rejects should hold
  the fill pattern in every mode: raw bytes \<^verbatim>\<open>ff ff ff ff\<close>, hex line \<^verbatim>\<open>ffffffff\<close>, binary
  line thirty-two ones. The revision without labels substitutes an object that has a
  \<^verbatim>\<open>hex\<close> and no \<^verbatim>\<open>bin\<close>: for the three lines of \<^verbatim>\<open>prog_bad\<close>, whose second line the
  codec rejects, the raw bytes and the hex line of the second slot are the fill pattern,
  but in Binary string mode its line is empty, and \<^verbatim>\<open>0x4: undefined\<close> when addresses are
  shown. The assembly goes on with the third line in every mode. The label-aware revision
  substitutes an object with both fields and gives thirty-two ones.
\<close>

theorem fill_without_bin:
  "ignoreIllegal lenient_args \<and> outputMode lenient_args = BinaryString
   \<and> nonempty_lines prog_bad = [''addi x1, x1, 1'', ''bogus x1'', ''addi x1, x1, 1'']
   \<and> enc_demo (isa lenient_args) ''bogus x1'' = Inl ''invalid instruction''
   \<and> run0 enc_demo prog_bad (lenient_args\<lparr>outputMode := RawBytes\<rparr>)
        = Inr [0, 16, 128, 147, 255, 255, 255, 255, 0, 16, 128, 147]
   \<and> run0 enc_demo prog_bad (lenient_args\<lparr>outputMode := HexString\<rparr>)
        = Inr (strToByteArray (''00108093'' @ [NL] @ ''ffffffff'' @ [NL] @ ''00108093''))
   \<and> run0 enc_demo prog_bad lenient_args
        = Inr (strToByteArray (''00000000000100001000000010010011'' @ [NL] @ [] @ [NL]
                 @ ''00000000000100001000000010010011''))
   \<and> run0 enc_demo prog_bad (lenient_args\<lparr>showAddr := True\<rparr>)
        = Inr (strToByteArray (''0x0: 00000000000100001000000010010011'' @ [NL]
                 @ ''0x4: undefined'' @ [NL]
                 @ ''0x8: 00000000000100001000000010010011''))
   \<and> run enc_demo prog_bad lenient_args
        = Inr (strToByteArray (''00000000000100001000000010010011'' @ [NL]
                 @ ''11111111111111111111111111111111'' @ [NL]
                 @ ''00000000000100001000000010010011''))"
  by code_simp

text \<open>
  Claim C5. The program \<^verbatim>\<open>loop:\<close>, \<^verbatim>\<open>addi x1, x1, 1\<close>, \<^verbatim>\<open>beq x1, x2, loop\<close> (three lines, each
  ended by a newline) is classified into two instructions and the label \<open>loop\<close> at address
  0; the branch, at address 4, is handed to the codec with the operand \<open>-4\<close>. With a codec
  that accepts the two instruction texts the assembly succeeds, and its output has exactly
  the two instructions.
\<close>

theorem loop_program:
  assumes i1: "enc (isa args) ''addi x1, x1, 1'' = Inr inst1"
    and i2: "enc (isa args) ''beq x1 x2 -4'' = Inr inst2"
  shows "parseRef prog_loop
           = Inr ([''addi x1, x1, 1'', ''beq x1, x2, loop''], [(''loop'', 0)], [2, 3])
       \<and> deref ''beq x1, x2, loop'' [(''loop'', 0)] 3 4 = Inr ''beq x1 x2 -4''
       \<and> encode_all enc args [(''loop'', 0)] 0 [(''addi x1, x1, 1'', 2), (''beq x1, x2, loop'', 3)]
           = Inr [inst1, inst2]
       \<and> run enc prog_loop args =
           Inr (if outputMode args = RawBytes then fromHex (hex inst1) @ fromHex (hex inst2)
                else strToByteArray
                       (out_line args (invRef [(''loop'', 0)]) 1 0 ''addi x1, x1, 1'' inst1
                        @ [NL]
                        @ out_line args (invRef [(''loop'', 0)]) 1 1 ''beq x1, x2, loop'' inst2))"
proof -
  have d: "deref ''beq x1, x2, loop'' [(''loop'', 0)] 3 4 = Inr ''beq x1 x2 -4''"
    using deref_prog_loop(2) by simp
  have e: "encode_all enc args [(''loop'', 0)] 0 [(''addi x1, x1, 1'', 2), (''beq x1, x2, loop'', 3)]
             = Inr [inst1, inst2]"
    using deref_prog_loop i1 i2 by (simp add: new_Instruction_def)
  have w: "ceil_log16 8 = 1" by code_simp
  have "run enc prog_loop args =
           Inr (if outputMode args = RawBytes then fromHex (hex inst1) @ fromHex (hex inst2)
                else strToByteArray
                       (out_line args (invRef [(''loop'', 0)]) 1 0 ''addi x1, x1, 1'' inst1
                        @ [NL]
                        @ out_line args (invRef [(''loop'', 0)]) 1 1 ''beq x1, x2, loop'' inst2))"
    by (simp add: run_char [OF parse_prog_loop] e w del: encode_all.simps)
  with parse_prog_loop d e show ?thesis by (intro conjI)
qed

theorem loop_program_witness:
  "enc_demo (isa raw_args) ''addi x1, x1, 1''
     = Inr \<lparr>hex = ''00108093'', bin = ''00000000000100001000000010010011''\<rparr>
   \<and> enc_demo (isa raw_args) ''beq x1 x2 -4''
     = Inr \<lparr>hex = ''fe208ee3'', bin = ''11111110001000001000111011100011''\<rparr>
   \<and> run enc_demo prog_loop raw_args = Inr [0x00, 0x10, 0x80, 0x93, 0xfe, 0x20, 0x8e, 0xe3]"
proof -
  have i1: "enc_demo (isa raw_args) ''addi x1, x1, 1''
     = Inr \<lparr>hex = ''00108093'', bin = ''00000000000100001000000010010011''\<rparr>"
    by (simp add: enc_demo_def)
  have i2: "enc_demo (isa raw_args) ''beq x1 x2 -4''
     = Inr \<lparr>hex = ''fe208ee3'', bin = ''11111110001000001000111011100011''\<rparr>"
    by (simp add: enc_demo_def)
  have m: "outputMode raw_args = RawBytes" by (simp add: raw_args_def)
  have b: "fromHex ''00108093'' @ fromHex ''fe208ee3'' = [0x00, 0x10, 0x80, 0x93, 0xfe, 0x20, 0x8e, 0xe3]"
    by code_simp
  from loop_program [of enc_demo raw_args, OF i1 i2] have
    "run enc_demo prog_loop raw_args
       = Inr (fromHex ''00108093'' @ fromHex ''fe208ee3'')"
    by (simp add: m)
  with i1 i2 b show ?thesis by simp
qed

text \<open>
  Claim C6, as amended. Call a non-empty line that contains a colon a label line, and the
  text before its first colon the label it defines. A label line repeats a name when its
  label is defined by an earlier label line or is the name of a property that every object
  inherits (\<^verbatim>\<open>constructor\<close>, \<^verbatim>\<open>toString\<close>, \<^verbatim>\<open>__proto__\<close>, ...). When two lines of a program
  define the same label, the line-classification pass stops at the first line \<open>m\<close> that
  repeats a name or defines a label starting with a digit; this line is the second of the
  two or an earlier one. The error carries the number and the label of that line: it is
  \<open>DuplicateLabel\<close> when the line repeats a name, and \<open>InvalidLabelName\<close> otherwise.
  \<^verbatim>\<open>run\<close> returns that error whatever the codec and the arguments are, so no line reaches
  the codec. When no label defined up to the second of the two lines starts with a digit,
  the error is \<open>DuplicateLabel\<close>.
\<close>

theorem duplicate_label:
  assumes ab: "a < b" and b: "b < length (nonempty_lines commands)"
    and la: "str_includes (nonempty_lines commands ! a) '':''"
    and lb: "str_includes (nonempty_lines commands ! b) '':''"
    and same: "label_of (nonempty_lines commands ! a) = label_of (nonempty_lines commands ! b)"
  shows "\<exists>m \<le> b.
           offends [] (nonempty_lines commands) m
         \<and> (\<forall>j < m. \<not> offends [] (nonempty_lines commands) j)
         \<and> parseRef commands
             = Inl (if repeats [] (nonempty_lines commands) m
                    then DuplicateLabel (m + 1) (label_of (nonempty_lines commands ! m))
                    else InvalidLabelName (m + 1) (label_of (nonempty_lines commands ! m)))
         \<and> (\<forall>enc args. run enc commands args
             = Inl (if repeats [] (nonempty_lines commands) m
                    then DuplicateLabel (m + 1) (label_of (nonempty_lines commands ! m))
                    else InvalidLabelName (m + 1) (label_of (nonempty_lines commands ! m))))
         \<and> ((\<forall>k \<le> b. str_includes (nonempty_lines commands ! k) '':''
                  \<longrightarrow> \<not> starts_with_digit (label_of (nonempty_lines commands ! k)))
              \<longrightarrow> repeats [] (nonempty_lines commands) m)"
proof -
  let ?codes = "nonempty_lines commands"
  have "repeats [] ?codes b" using ab la lb same by (auto simp: repeats_iff)
  then have "offends [] ?codes b" by (simp add: offends_def)
  from first_offender_exists [OF this] obtain m where
    mb: "m \<le> b" and om: "offends [] ?codes m" and least: "\<forall>j < m. \<not> offends [] ?codes j"
    by blast
  let ?e = "if repeats [] ?codes m
            then DuplicateLabel (m + 1) (label_of (?codes ! m))
            else InvalidLabelName (m + 1) (label_of (?codes ! m))"
  from mb b have ml: "m < length ?codes" by simp
  have inv: "fst ` set ([] :: ref_list) = set ([] :: string list)" by simp
  from parseRef_loop_first_offender [OF inv ml om least, of 0 "[]" "[]"]
  have p: "parseRef commands = Inl ?e"
    by (simp add: parseRef_def split_codes_nonempty_lines)
  have r: "\<forall>enc args. run enc commands args = Inl ?e"
    using run_parse_error [OF p] by blast
  have d: "(\<forall>k \<le> b. str_includes (?codes ! k) '':'' \<longrightarrow> \<not> starts_with_digit (label_of (?codes ! k)))
              \<longrightarrow> repeats [] ?codes m"
    using om mb by (auto simp: offends_def)
  from mb om least p r d show ?thesis by blast
qed

theorem duplicate_label_witness:
  "(0::nat) < 1 \<and> 1 < length (nonempty_lines prog_twice)
   \<and> str_includes (nonempty_lines prog_twice ! 0) '':''
   \<and> str_includes (nonempty_lines prog_twice ! 1) '':''
   \<and> label_of (nonempty_lines prog_twice ! 0) = label_of (nonempty_lines prog_twice ! 1)
   \<and> \<not> starts_with_digit (label_of (nonempty_lines prog_twice ! 0))
   \<and> \<not> starts_with_digit (label_of (nonempty_lines prog_twice ! 1))
   \<and> \<not> offends [] (nonempty_lines prog_twice) 0
   \<and> (\<exists>m \<le> 1. offends [] (nonempty_lines prog_twice) m
          \<and> repeats [] (nonempty_lines prog_twice) m
          \<and> parseRef prog_twice
               = Inl (DuplicateLabel (m + 1) (label_of (nonempty_lines prog_twice ! m))))
   \<and> parseRef prog_twice = Inl (DuplicateLabel 2 ''L'')
   \<and> (\<forall>enc args. run enc prog_twice args = Inl (DuplicateLabel 2 ''L''))"
proof -
  have h1: "(0::nat) < 1" by simp
  have h2: "1 < length (nonempty_lines prog_twice)" by code_simp
  have h3: "str_includes (nonempty_lines prog_twice ! 0) '':''" by code_simp
  have h4: "str_includes (nonempty_lines prog_twice ! 1) '':''" by code_simp
  have h5: "label_of (nonempty_lines prog_twice ! 0) = label_of (nonempty_lines prog_twice ! 1)"
    by code_simp
  have d0: "\<not> starts_with_digit (label_of (nonempty_lines prog_twice ! 0))" by code_simp
  have d1: "\<not> starts_with_digit (label_of (nonempty_lines prog_twice ! 1))" by code_simp
  have h6: "\<forall>k \<le> 1. str_includes (nonempty_lines prog_twice ! k) '':''
          \<longrightarrow> \<not> starts_with_digit (label_of (nonempty_lines prog_twice ! k))"
  proof (intro allI impI)
    fix k :: nat assume "k \<le> 1"
    then have "k = 0 \<or> k = 1" by auto
    with d0 d1 show "\<not> starts_with_digit (label_of (nonempty_lines prog_twice ! k))" by blast
  qed
  have n0: "\<not> offends [] (nonempty_lines prog_twice) 0" by code_simp
  have l1: "label_of (nonempty_lines prog_twice ! 1) = ''L''" by code_simp
  from duplicate_label [OF h1 h2 h3 h4 h5] h6 obtain m where
    mb: "m \<le> 1" and om: "offends [] (nonempty_lines prog_twice) m" and
    rm: "repeats [] (nonempty_lines prog_twice) m" and
    p: "parseRef prog_twice
             = Inl (if repeats [] (nonempty_lines prog_twice) m
                    then DuplicateLabel (m + 1) (label_of (nonempty_lines prog_twice ! m))
                    else InvalidLabelName (m + 1) (label_of (nonempty_lines prog_twice ! m)))" and
    r: "\<forall>enc args. run enc prog_twice args
             = Inl (if repeats [] (nonempty_lines prog_twice) m
                    then DuplicateLabel (m + 1) (label_of (nonempty_lines prog_twice ! m))
                    else InvalidLabelName (m + 1) (label_of (nonempty_lines prog_twice ! m)))"
    by blast
  from mb om n0 have m1: "m = 1" by (cases m) auto
  from p rm have pm: "parseRef prog_twice
               = Inl (DuplicateLabel (m + 1) (label_of (nonempty_lines prog_twice ! m)))" by simp
  from mb om rm pm have ex: "\<exists>m \<le> 1. offends [] (nonempty_lines prog_twice) m
          \<and> repeats [] (nonempty_lines prog_twice) m
          \<and> parseRef prog_twice
               = Inl (DuplicateLabel (m + 1) (label_of (nonempty_lines prog_twice ! m)))"
    by blast
  from pm m1 l1 have p': "parseRef prog_twice = Inl (DuplicateLabel 2 ''L'')" by simp
  from r rm m1 l1 have r': "\<forall>enc args. run enc prog_twice args = Inl (DuplicateLabel 2 ''L'')"
    by simp
  from h1 h2 h3 h4 h5 d0 d1 n0 ex p' r' show ?thesis by (intro conjI)
qed

theorem duplicate_label_counterexample:
  "nonempty_lines prog_digit = [''7:'', ''L:'', ''L:'']
   \<and> label_of (nonempty_lines prog_digit ! 1) = label_of (nonempty_lines prog_digit ! 2)
   \<and> run enc_demo prog_digit raw_args = Inl (InvalidLabelName 1 ''7'')"
  by code_simp

text \<open>
  Claim C3 says that, with ignore-illegal not set, the error for a line that the codec
  rejects names the line's number in the text as supplied, blank lines included. The code
  numbers the non-empty lines only: in the input below the rejected line is the third line
  of the text, after a blank line, and the error says line 2.
\<close>

theorem error_line_ignores_blank_lines:
  "split_char NL prog_blank = [''addi x1, x1, 1'', [], ''bogus x1'']
   \<and> run enc_demo prog_blank raw_args = Inl (IllegalInstruction 2 ''invalid instruction'')
   \<and> run0 enc_demo prog_blank raw_args = Inl (IllegalInstruction 2 ''invalid instruction'')
   \<and> message (IllegalInstruction 2 ''invalid instruction'') = ''Error at line 2: invalid instruction''"
  by code_simp

text \<open>
  Claim C9. Blank lines contribute nothing: the lines \<^verbatim>\<open>run\<close> works on are the non-empty
  lines of the text, so two texts with the same non-empty lines give the same result (in
  both revisions). In the revision without labels, which the claim is drawn from, every
  non-empty line takes a slot: slot \<open>k\<close> holds what the codec returns for the \<open>k\<close>-th
  non-empty line (or the fill), line \<open>k\<close> of the text output is written for index \<open>k\<close>, its
  address column reads \<open>4 * k\<close>, and in raw mode the four bytes at offset \<open>4 * k\<close> are those
  of slot \<open>k\<close> (the codec rendering a word as eight hex digits). A text of newlines only, or
  the empty text, gives the empty byte array in every mode.
\<close>

theorem blank_lines:
  "split_codes commands = nonempty_lines commands
   \<and> (nonempty_lines commands' = nonempty_lines commands \<longrightarrow>
        run0 enc commands' args = run0 enc commands args
      \<and> run enc commands' args = run enc commands args)
   \<and> run0 enc commands args =
       (case encode_all0 enc args 0 (nonempty_lines commands) of
          Inl e \<Rightarrow> Inl e
        | Inr slots \<Rightarrow>
            Inr (if outputMode args = RawBytes
                 then concat (map (\<lambda>slot. fromHex (fst slot)) slots)
                 else strToByteArray (join [NL] (map join_elem
                        (text_lines0 args (ceil_log16 (length (nonempty_lines commands) * 4)) 0
                           (nonempty_lines commands) slots)))))
   \<and> (\<forall>slots k.
        encode_all0 enc args 0 (nonempty_lines commands) = Inr slots \<longrightarrow>
        k < length (nonempty_lines commands) \<longrightarrow>
          slots ! k = (case enc (isa args) (nonempty_lines commands ! k) of
                         Inr inst \<Rightarrow> (hex inst, Some (bin inst))
                       | Inl msg \<Rightarrow> (''ffffffff'', None))
        \<and> text_lines0 args (ceil_log16 (length (nonempty_lines commands) * 4)) 0
              (nonempty_lines commands) slots ! k
            = out_line0 args (ceil_log16 (length (nonempty_lines commands) * 4)) k
                (nonempty_lines commands ! k)
                (if outputMode args = HexString then Some (fst (slots ! k)) else snd (slots ! k))
        \<and> (showAddr args \<longrightarrow>
              (\<exists>rest. text_lines0 args (ceil_log16 (length (nonempty_lines commands) * 4)) 0
                         (nonempty_lines commands) slots ! k
                       = Some (''0x'' @ addr_text (ceil_log16 (length (nonempty_lines commands) * 4)) k
                                @ '': '' @ rest)))
        \<and> hex_value (addr_text (ceil_log16 (length (nonempty_lines commands) * 4)) k) = 4 * k
        \<and> (wf_encoder enc \<longrightarrow>
              length (fromHex (fst (slots ! k))) = 4
            \<and> take 4 (drop (4 * k) (concat (map (\<lambda>slot. fromHex (fst slot)) slots)))
                = fromHex (fst (slots ! k))))
   \<and> (set commands \<subseteq> {NL} \<longrightarrow>
        run0 enc commands args = Inr [] \<and> run enc commands args = Inr [])"
proof -
  let ?L = "nonempty_lines commands"
  let ?w = "ceil_log16 (length ?L * 4)"
  have a: "split_codes commands = ?L" by (rule split_codes_nonempty_lines)
  have b: "nonempty_lines commands' = ?L \<longrightarrow>
        run0 enc commands' args = run0 enc commands args
      \<and> run enc commands' args = run enc commands args"
    using run0_depends_on_nonempty_lines run_depends_on_nonempty_lines by blast
  have c: "run0 enc commands args =
       (case encode_all0 enc args 0 ?L of
          Inl e \<Rightarrow> Inl e
        | Inr slots \<Rightarrow>
            Inr (if outputMode args = RawBytes
                 then concat (map (\<lambda>slot. fromHex (fst slot)) slots)
                 else strToByteArray (join [NL] (map join_elem
                        (text_lines0 args ?w 0 ?L slots)))))"
    by (rule run0_eq)
  have d: "\<forall>slots k.
        encode_all0 enc args 0 ?L = Inr slots \<longrightarrow>
        k < length ?L \<longrightarrow>
          slots ! k = (case enc (isa args) (?L ! k) of
                         Inr inst \<Rightarrow> (hex inst, Some (bin inst))
                       | Inl msg \<Rightarrow> (''ffffffff'', None))
        \<and> text_lines0 args ?w 0 ?L slots ! k
            = out_line0 args ?w k (?L ! k)
                (if outputMode args = HexString then Some (fst (slots ! k)) else snd (slots ! k))
        \<and> (showAddr args \<longrightarrow>
              (\<exists>rest. text_lines0 args ?w 0 ?L slots ! k
                       = Some (''0x'' @ addr_text ?w k @ '': '' @ rest)))
        \<and> hex_value (addr_text ?w k) = 4 * k
        \<and> (wf_encoder enc \<longrightarrow>
              length (fromHex (fst (slots ! k))) = 4
            \<and> take 4 (drop (4 * k) (concat (map (\<lambda>slot. fromHex (fst slot)) slots)))
                = fromHex (fst (slots ! k)))"
  proof (intro allI impI)
    fix slots k
    assume e: "encode_all0 enc args 0 ?L = Inr slots" and k: "k < length ?L"
    have len: "length ?L = length slots" using encode_all0_length [OF e] by simp
    have d1: "slots ! k = (case enc (isa args) (?L ! k) of
                         Inr inst \<Rightarrow> (hex inst, Some (bin inst))
                       | Inl msg \<Rightarrow> (''ffffffff'', None))"
      by (rule encode_all0_nth [OF e k])
    have d2: "text_lines0 args ?w 0 ?L slots ! k
            = out_line0 args ?w k (?L ! k)
                (if outputMode args = HexString then Some (fst (slots ! k)) else snd (slots ! k))"
      using text_lines0_nth [OF len k, of args ?w 0] by simp
    have d3: "showAddr args \<longrightarrow>
              (\<exists>rest. text_lines0 args ?w 0 ?L slots ! k
                       = Some (''0x'' @ addr_text ?w k @ '': '' @ rest))"
      using out_line0_addr [of args ?w k "?L ! k"] by (simp only: d2) blast
    have d4: "hex_value (addr_text ?w k) = 4 * k"
      using addr_text_props(2) [OF k] by (simp add: mult.commute)
    have d5: "wf_encoder enc \<longrightarrow>
              length (fromHex (fst (slots ! k))) = 4
            \<and> take 4 (drop (4 * k) (concat (map (\<lambda>slot. fromHex (fst slot)) slots)))
                = fromHex (fst (slots ! k))"
      using slot0_bytes [OF _ e k] by blast
    from d1 d2 d3 d4 d5
    show "slots ! k = (case enc (isa args) (?L ! k) of
                         Inr inst \<Rightarrow> (hex inst, Some (bin inst))
                       | Inl msg \<Rightarrow> (''ffffffff'', None))
        \<and> text_lines0 args ?w 0 ?L slots ! k
            = out_line0 args ?w k (?L ! k)
                (if outputMode args = HexString then Some (fst (slots ! k)) else snd (slots ! k))
        \<and> (showAddr args \<longrightarrow>
              (\<exists>rest. text_lines0 args ?w 0 ?L slots ! k
                       = Some (''0x'' @ addr_text ?w k @ '': '' @ rest)))
        \<and> hex_value (addr_text ?w k) = 4 * k
        \<and> (wf_encoder enc \<longrightarrow>
              length (fromHex (fst (slots ! k))) = 4
            \<and> take 4 (drop (4 * k) (concat (map (\<lambda>slot. fromHex (fst slot)) slots)))
                = fromHex (fst (slots ! k)))"
      by (intro conjI)
  qed
  have e: "set commands \<subseteq> {NL} \<longrightarrow>
        run0 enc commands args = Inr [] \<and> run enc commands args = Inr []"
    using run0_newlines run_newlines by blast
  from a b c d e show ?thesis by (intro conjI)
qed

theorem blank_lines_witness:
  "nonempty_lines prog_gaps = nonempty_lines prog_tidy
   \<and> nonempty_lines prog_gaps = [''addi x1, x1, 1'', ''addi x1, x1, 1'']
   \<and> encode_all0 enc_demo addr_args 0 (nonempty_lines prog_gaps)
        = Inr [(''00108093'', Some ''00000000000100001000000010010011''),
               (''00108093'', Some ''00000000000100001000000010010011'')]
   \<and> (1::nat) < length (nonempty_lines prog_gaps)
   \<and> showAddr addr_args \<and> wf_encoder enc_demo
   \<and> set [NL, NL] \<subseteq> {NL}
   \<and> run0 enc_demo prog_gaps addr_args = run0 enc_demo prog_tidy addr_args
   \<and> run0 enc_demo prog_gaps addr_args
       = Inr (strToByteArray (''0x0: 00108093'' @ [NL] @ ''0x4: 00108093''))
   \<and> run0 enc_demo prog_gaps raw_args = Inr [0, 16, 128, 147, 0, 16, 128, 147]
   \<and> hex_value (addr_text (ceil_log16 (length (nonempty_lines prog_gaps) * 4)) 1) = 4 * 1
   \<and> (\<exists>rest. text_lines0 addr_args (ceil_log16 (length (nonempty_lines prog_gaps) * 4)) 0
                  (nonempty_lines prog_gaps)
                  [(''00108093'', Some ''00000000000100001000000010010011''),
                   (''00108093'', Some ''00000000000100001000000010010011'')] ! 1
                = Some (''0x'' @ addr_text (ceil_log16 (length (nonempty_lines prog_gaps) * 4)) 1
                         @ '': '' @ rest))
   \<and> run0 enc_demo [NL, NL] addr_args = Inr []
   \<and> run0 enc_demo [] addr_args = Inr []"
proof -
  let ?slots = "[(''00108093'', Some ''00000000000100001000000010010011''),
                 (''00108093'', Some ''00000000000100001000000010010011'')]"
  have h1: "nonempty_lines prog_gaps = nonempty_lines prog_tidy" by code_simp
  have l: "nonempty_lines prog_gaps = [''addi x1, x1, 1'', ''addi x1, x1, 1'']" by code_simp
  have e: "encode_all0 enc_demo addr_args 0 (nonempty_lines prog_gaps) = Inr ?slots" by code_simp
  have k: "(1::nat) < length (nonempty_lines prog_gaps)" by code_simp
  have sa: "showAddr addr_args" by (simp add: addr_args_def)
  have h3: "set [NL, NL] \<subseteq> {NL}" by simp
  have h4: "set ([] :: string) \<subseteq> {NL}" by simp
  have v: "run0 enc_demo prog_gaps addr_args
       = Inr (strToByteArray (''0x0: 00108093'' @ [NL] @ ''0x4: 00108093''))" by code_simp
  have v': "run0 enc_demo prog_gaps raw_args = Inr [0, 16, 128, 147, 0, 16, 128, 147]" by code_simp
  note t = blank_lines [of prog_gaps prog_tidy enc_demo addr_args]
  from t h1 [symmetric]
  have r1: "run0 enc_demo prog_tidy addr_args = run0 enc_demo prog_gaps addr_args" by fast
  from t e k
  have a1: "hex_value (addr_text (ceil_log16 (length (nonempty_lines prog_gaps) * 4)) 1) = 4 * 1"
    by fast
  from t e k sa
  have a2: "\<exists>rest. text_lines0 addr_args (ceil_log16 (length (nonempty_lines prog_gaps) * 4)) 0
                  (nonempty_lines prog_gaps) ?slots ! 1
                = Some (''0x'' @ addr_text (ceil_log16 (length (nonempty_lines prog_gaps) * 4)) 1
                         @ '': '' @ rest)"
    by fast
  from blank_lines [of "[NL, NL]" "[NL, NL]" enc_demo addr_args] h3
  have r3: "run0 enc_demo [NL, NL] addr_args = Inr []" by fast
  from blank_lines [of "[]" "[]" enc_demo addr_args] h4
  have r4: "run0 enc_demo [] addr_args = Inr []" by fast
  from h1 l e k sa wf_enc_demo h3 v v' r1 a1 a2 r3 r4 show ?thesis by simp
qed
end
